theory Spec2Isabelle
  imports Main "HOL-Library.Multiset" "HOL-Library.Signed_Division" "HOL-Library.Monad_Syntax"
begin

section \<open>Machine integers and vectors\<close>

text \<open>
  The C++ type \<open>int\<close> is 32 bits wide.  Values of that type are modelled as
  mathematical integers in the interval from \<open>INT_MIN\<close> to \<open>INT_MAX\<close>, and
  every arithmetic operation of the source whose result may leave that interval
  is followed by \<open>int32\<close>, the two's-complement wrap-around.  The C++
  standard leaves signed overflow undefined, so the wrapped value is the
  outcome of one build of the program (the one that computes in 32-bit
  registers without further assumptions) and another build may differ.  For
  that reason every theorem below that promises an output of a sort is stated
  for inputs on which no \<open>int\<close> operation of that sort overflows; wrapped
  values occur only where a sort is evaluated at an input outside that range,
  to show what the wrapping build does there.  The \<open>long long\<close>
  computations of \<open>bucketSort\<close> involve factors of at most 32 bits and cannot
  leave 64 bits, so they are written without a wrap.
\<close>

definition INT_MIN :: int where
  "INT_MIN = - 2147483648"

definition INT_MAX :: int where
  "INT_MAX = 2147483647"

definition int32 :: "int \<Rightarrow> int" where
  "int32 x = (x + 2147483648) mod 4294967296 - 2147483648"

text \<open>
  The operator \<open>/\<close> of C++ truncates towards zero (\<open>sdiv\<close>); it traps on a
  zero divisor and on \<open>INT_MIN / -1\<close>.  A trap, like every other fault below,
  is the result \<open>None\<close>.
\<close>

definition cdiv :: "int \<Rightarrow> int \<Rightarrow> int option" where
  "cdiv a b = (if b = 0 \<or> (a = INT_MIN \<and> b = - 1) then None else Some (a sdiv b))"

text \<open>
  A \<open>std::vector\<close> is a list.  An \<open>int\<close> used as an index or as a size is
  converted to \<open>size_t\<close>: a negative one becomes a huge unsigned number, so
  that the access lies outside the vector, or the allocation fails.
\<close>

definition vget :: "'a list \<Rightarrow> int \<Rightarrow> 'a option" where
  "vget xs i = (if 0 \<le> i \<and> i < int (length xs) then Some (xs ! nat i) else None)"

definition vset :: "'a list \<Rightarrow> int \<Rightarrow> 'a \<Rightarrow> 'a list option" where
  "vset xs i v = (if 0 \<le> i \<and> i < int (length xs) then Some (xs[nat i := v]) else None)"

definition vnew :: "int \<Rightarrow> 'a \<Rightarrow> 'a list option" where
  "vnew n v = (if 0 \<le> n then Some (replicate (nat n) v) else None)"

text \<open>
  The elements \<open>arr[0]\<close>, ..., \<open>arr[n - 1]\<close> that a loop
  \<open>for (int i = 0; i < n; i++)\<close> reads, for an \<open>n\<close> that does not exceed
  the size of \<open>arr\<close>; the loop running from \<open>n - 1\<close> down to \<open>0\<close> reads
  them in reverse.
\<close>

definition first_n :: "int \<Rightarrow> 'a list \<Rightarrow> 'a list" where
  "first_n n arr = take (nat n) arr"

section \<open>Records\<close>

record Record =
  key :: int
  id' :: int

text \<open>A value-initialised \<open>Record\<close>, as \<open>std::vector<Record> output(n)\<close> holds.\<close>

definition zero_Record :: Record where
  "zero_Record = \<lparr>key = 0, id' = 0\<rparr>"

section \<open>The range scanner\<close>

fun getMinMax_loop :: "Record list \<Rightarrow> int \<times> int \<Rightarrow> int \<times> int" where
  "getMinMax_loop [] (minVal, maxVal) = (minVal, maxVal)"
| "getMinMax_loop (r # rest) (minVal, maxVal) =
     (let minVal = (if key r < minVal then key r else minVal);
          maxVal = (if key r > maxVal then key r else maxVal)
      in getMinMax_loop rest (minVal, maxVal))"

text \<open>
  \<open>getMinMax\<close> writes through two references; the model takes their old values
  and returns the new ones.  On an empty vector nothing is written.  The sorts
  call it with uninitialised variables, after their own test for an empty
  vector; the model passes \<open>(0, 0)\<close>, which a non-empty vector overwrites.
\<close>

definition getMinMax :: "Record list \<Rightarrow> int \<times> int \<Rightarrow> int \<times> int" where
  "getMinMax arr mm =
     (if arr = [] then mm
      else getMinMax_loop arr (key (arr ! 0), key (arr ! 0)))"

section \<open>The loops of the counting passes\<close>

text \<open>
  The frequency count, the cumulative count and the right-to-left placement
  occur twice in the source with the same text up to the expression that
  selects the counter: \<open>rec.key - minVal\<close> in \<open>countingSortStable\<close> and
  \<open>(arr[i].key / exp) % 10\<close> in \<open>radixSortLSD\<close>.  They are modelled once,
  with that expression as the parameter \<open>slot\<close>.
\<close>

fun count_keys :: "(Record \<Rightarrow> int option) \<Rightarrow> Record list \<Rightarrow> int list \<Rightarrow> int list option" where
  "count_keys slot [] cnt = Some cnt"
| "count_keys slot (r # rest) cnt = do {
     s \<leftarrow> slot r;
     c \<leftarrow> vget cnt s;
     cnt' \<leftarrow> vset cnt s (int32 (c + 1));
     count_keys slot rest cnt'
   }"

text \<open>\<open>for (i = 1; i < range; i++) count[i] += count[i - 1]\<close>, over the indices it visits.\<close>

fun cumulate :: "nat list \<Rightarrow> int list \<Rightarrow> int list option" where
  "cumulate [] cnt = Some cnt"
| "cumulate (i # rest) cnt = do {
     a \<leftarrow> vget cnt (int i);
     b \<leftarrow> vget cnt (int i - 1);
     cnt' \<leftarrow> vset cnt (int i) (int32 (a + b));
     cumulate rest cnt'
   }"

text \<open>
  \<open>output[count[idx] - 1] = arr[i]; count[idx]--\<close> for the records in the
  order the loop visits them (last to first).
\<close>

fun place :: "(Record \<Rightarrow> int option) \<Rightarrow> Record list \<Rightarrow> int list \<Rightarrow> Record list \<Rightarrow> Record list option" where
  "place slot [] cnt output = Some output"
| "place slot (r # rest) cnt output = do {
     s \<leftarrow> slot r;
     c \<leftarrow> vget cnt s;
     output' \<leftarrow> vset output (int32 (c - 1)) r;
     cnt' \<leftarrow> vset cnt s (int32 (c - 1));
     place slot rest cnt' output'
   }"

section \<open>Counting sort, stable\<close>

definition countingSortStable :: "Record list \<Rightarrow> Record list option" where
  "countingSortStable arr =
     (if arr = [] then Some arr
      else do {
        let (minVal, maxVal) = getMinMax arr (0, 0);
        let range' = int32 (int32 (maxVal - minVal) + 1);
        cnt \<leftarrow> vnew range' 0;
        let output = replicate (length arr) zero_Record;
        cnt \<leftarrow> count_keys (\<lambda>r. Some (int32 (key r - minVal))) arr cnt;
        cnt \<leftarrow> cumulate [1..<nat range'] cnt;
        let last_i = int32 (int (length arr) - 1);
        place (\<lambda>r. Some (int32 (key r - minVal))) (rev (first_n (last_i + 1) arr)) cnt output
      })"

section \<open>Counting sort, not stable\<close>

text \<open>The inner \<open>while (count[i] > 0)\<close> loop for one value of \<open>i\<close>.\<close>

function fill_key :: "int \<Rightarrow> nat \<Rightarrow> Record list \<times> int list \<times> int \<Rightarrow> (Record list \<times> int list \<times> int) option" where
  "fill_key minVal i (arr, cnt, index) =
     (case vget cnt (int i) of
        None \<Rightarrow> None
      | Some c \<Rightarrow>
          if c > 0 then
            (case vget arr index of
               None \<Rightarrow> None
             | Some r \<Rightarrow>
                 fill_key minVal i
                   (arr[nat index := r\<lparr>key := int32 (int i + minVal)\<rparr>],
                    cnt[i := int32 (c - 1)],
                    int32 (index + 1)))
          else Some (arr, cnt, index))"
  by pat_completeness auto
termination
proof (relation "measure (\<lambda>(minVal, i, arr, cnt, index). nat (cnt ! i))")
  show "wf (measure (\<lambda>(minVal, i, arr, cnt, index). nat (cnt ! i)))"
    by simp
next
  fix minVal :: int and i :: nat and arr :: "Record list" and cnt :: "int list"
    and index c :: int and r :: Record
  assume g: "vget cnt (int i) = Some c" and pos: "0 < c"
  from g have lt: "i < length cnt" and c: "c = cnt ! i"
    by (auto simp: vget_def split: if_splits)
  have "int32 (c - 1) < c"
  proof (cases "c \<le> 2147483648")
    case True
    with pos have "int32 (c - 1) = c - 1"
      by (simp add: int32_def)
    then show ?thesis by simp
  next
    case False
    have "int32 (c - 1) < 2147483648"
      by (simp add: int32_def)
    with False show ?thesis by simp
  qed
  with pos lt c
  show "((minVal, i, arr[nat index := r\<lparr>key := int32 (int i + minVal)\<rparr>],
          cnt[i := int32 (c - 1)], int32 (index + 1)),
         (minVal, i, arr, cnt, index))
        \<in> measure (\<lambda>(minVal, i, arr, cnt, index). nat (cnt ! i))"
    by simp
qed

declare fill_key.simps [simp del]

fun fill_all :: "int \<Rightarrow> nat list \<Rightarrow> Record list \<times> int list \<times> int \<Rightarrow> (Record list \<times> int list \<times> int) option" where
  "fill_all minVal [] st = Some st"
| "fill_all minVal (i # rest) st = do {
     st' \<leftarrow> fill_key minVal i st;
     fill_all minVal rest st'
   }"

definition countingSortUnstable :: "Record list \<Rightarrow> Record list option" where
  "countingSortUnstable arr =
     (if arr = [] then Some arr
      else do {
        let (minVal, maxVal) = getMinMax arr (0, 0);
        let range' = int32 (int32 (maxVal - minVal) + 1);
        cnt \<leftarrow> vnew range' 0;
        cnt \<leftarrow> count_keys (\<lambda>r. Some (int32 (key r - minVal))) arr cnt;
        (arr', cnt', index') \<leftarrow> fill_all minVal [0..<nat range'] (arr, cnt, 0);
        Some arr'
      })"

section \<open>LSD radix sort\<close>

definition digit :: "int \<Rightarrow> Record \<Rightarrow> int option" where
  "digit exp r = do { q \<leftarrow> cdiv (key r) exp; Some (q smod 10) }"

text \<open>One pass of the \<open>for\<close> loop over \<open>exp\<close>: a counting sort on one decimal digit.\<close>

definition radix_pass :: "int \<Rightarrow> Record list \<Rightarrow> Record list option" where
  "radix_pass exp arr = do {
     let n = int32 (int (length arr));
     output \<leftarrow> vnew n zero_Record;
     cnt \<leftarrow> count_keys (digit exp) (first_n n arr) (replicate 10 0);
     cnt \<leftarrow> cumulate [1..<10] cnt;
     place (digit exp) (rev (first_n n arr)) cnt output
   }"

text \<open>
  The loop \<open>for (int exp = 1; maxKey / exp > 0; exp *= 10)\<close>.  For a
  \<open>maxKey\<close> below \<open>10^9\<close> the loop ends with \<open>exp\<close> at most \<open>10^9\<close> and
  \<open>int32\<close> is the identity on every value of \<open>exp\<close>.  For a larger
  \<open>maxKey\<close> the pass with \<open>exp = 10^9\<close> runs and \<open>exp *= 10\<close> overflows
  (line 91 of \<open>sorting.cpp\<close>): the run is undefined from there on, and the
  wrapped value is what the wrapping build continues with.
\<close>

partial_function (option) radix_loop :: "int \<Rightarrow> int \<Rightarrow> Record list \<Rightarrow> Record list option" where
  "radix_loop maxKey exp arr = do {
     q \<leftarrow> cdiv maxKey exp;
     if q > 0 then do {
       arr' \<leftarrow> radix_pass exp arr;
       radix_loop maxKey (int32 (exp * 10)) arr'
     } else Some arr
   }"

declare radix_loop.simps [code]

text \<open>
  \<open>radixSortLSD\<close>.  The shift \<open>-minVal\<close> (line 86) overflows for
  \<open>minVal = INT_MIN\<close>, and \<open>key + shift\<close> (lines 87 and 88) overflows when
  \<open>maxVal - minVal\<close> exceeds \<open>INT_MAX\<close>; as in the loop, \<open>int32\<close> is the
  identity on the runs without overflow and gives the value of the wrapping
  build on the others.
\<close>

definition radixSortLSD :: "Record list \<Rightarrow> Record list option" where
  "radixSortLSD arr =
     (if arr = [] then Some arr
      else do {
        let (minVal, maxVal) = getMinMax arr (0, 0);
        let shift = (if minVal < 0 then int32 (- minVal) else 0);
        let arr = map (\<lambda>r. r\<lparr>key := int32 (key r + shift)\<rparr>) arr;
        let maxKey = int32 (maxVal + shift);
        arr \<leftarrow> radix_loop maxKey 1 arr;
        Some (if shift > 0 then map (\<lambda>r. r\<lparr>key := int32 (key r - shift)\<rparr>) arr else arr)
      })"

section \<open>Bucket sort and pigeonhole sort\<close>

text \<open>
  Lines 129 and 130 of \<open>sorting.cpp\<close>: the subtraction \<open>arr[i].key - minVal\<close>
  is carried out in \<open>int\<close>, and only its result is converted to
  \<open>long long\<close>; \<open>range\<close> is a \<open>long long\<close>.
\<close>

definition bucket_index :: "int \<Rightarrow> int \<Rightarrow> int \<Rightarrow> Record \<Rightarrow> int option" where
  "bucket_index minVal bucketCount range' r =
     (if range' = 0 then None
      else
        let idx = int32 ((int32 (key r - minVal) * bucketCount) sdiv range');
            idx = (if idx \<ge> bucketCount then int32 (bucketCount - 1) else idx)
        in Some idx)"

text \<open>\<open>buckets[idx].push_back(rec)\<close> for each record, in input order.\<close>

fun scatter :: "(Record \<Rightarrow> int option) \<Rightarrow> Record list \<Rightarrow> Record list list \<Rightarrow> Record list list option" where
  "scatter slot [] buckets = Some buckets"
| "scatter slot (r # rest) buckets = do {
     idx \<leftarrow> slot r;
     b \<leftarrow> vget buckets idx;
     buckets' \<leftarrow> vset buckets idx (b @ [r]);
     scatter slot rest buckets'
   }"

text \<open>\<open>for (const auto& item : bucket) arr[index++] = item\<close>.\<close>

fun write_items :: "Record list \<Rightarrow> Record list \<times> int \<Rightarrow> (Record list \<times> int) option" where
  "write_items [] (arr, index) = Some (arr, index)"
| "write_items (item # rest) (arr, index) = do {
     arr' \<leftarrow> vset arr index item;
     write_items rest (arr', int32 (index + 1))
   }"

text \<open>
  \<open>std::stable_sort\<close> with the comparison \<open>a.key < b.key\<close>, by its contract in
  the C++ standard: the stable sort by key.
\<close>

definition stable_sort_by_key :: "Record list \<Rightarrow> Record list" where
  "stable_sort_by_key b = sort_key key b"

fun sort_and_copy_back :: "Record list list \<Rightarrow> Record list \<times> int \<Rightarrow> (Record list \<times> int) option" where
  "sort_and_copy_back [] st = Some st"
| "sort_and_copy_back (b # rest) st = do {
     st' \<leftarrow> write_items (stable_sort_by_key b) st;
     sort_and_copy_back rest st'
   }"

definition bucketSort :: "Record list \<Rightarrow> Record list option" where
  "bucketSort arr =
     (if arr = [] then Some arr
      else do {
        let (minVal, maxVal) = getMinMax arr (0, 0);
        let n = int32 (int (length arr));
        let bucketCount = n;
        buckets \<leftarrow> vnew bucketCount [];
        let range' = maxVal - minVal + 1;
        buckets \<leftarrow> scatter (bucket_index minVal bucketCount range') (first_n n arr) buckets;
        (arr', index') \<leftarrow> sort_and_copy_back buckets (arr, 0);
        Some arr'
      })"

fun copy_back :: "Record list list \<Rightarrow> Record list \<times> int \<Rightarrow> (Record list \<times> int) option" where
  "copy_back [] st = Some st"
| "copy_back (h # rest) st = do {
     st' \<leftarrow> write_items h st;
     copy_back rest st'
   }"

definition pigeonholeSort :: "Record list \<Rightarrow> Record list option" where
  "pigeonholeSort arr =
     (if arr = [] then Some arr
      else do {
        let (minVal, maxVal) = getMinMax arr (0, 0);
        let range' = int32 (int32 (maxVal - minVal) + 1);
        holes \<leftarrow> vnew range' [];
        holes \<leftarrow> scatter (\<lambda>r. Some (int32 (key r - minVal))) arr holes;
        (arr', index') \<leftarrow> copy_back holes (arr, 0);
        Some arr'
      })"

section \<open>The verifier\<close>

text \<open>The loop \<open>for (size_t i = 1; i < arr.size(); i++)\<close> over the indices it visits.\<close>

fun verify_loop :: "nat list \<Rightarrow> Record list \<Rightarrow> bool \<Rightarrow> bool" where
  "verify_loop [] arr checkStability = True"
| "verify_loop (i # rest) arr checkStability =
     (if key (arr ! i) < key (arr ! (i - 1)) then False
      else if checkStability \<and> key (arr ! i) = key (arr ! (i - 1))
              \<and> id' (arr ! i) < id' (arr ! (i - 1)) then False
      else verify_loop rest arr checkStability)"

definition verify :: "Record list \<Rightarrow> bool \<Rightarrow> bool" where
  "verify arr checkStability = verify_loop [1..<length arr] arr checkStability"

section \<open>The inputs the sorts are specified for\<close>

text \<open>
  A well-formed input holds keys of type \<open>int\<close>, and its number of records
  fits the \<open>int\<close> counters and indices of the sorts.
\<close>

definition well_formed :: "Record list \<Rightarrow> bool" where
  "well_formed arr \<longleftrightarrow>
     (\<forall>r\<in>set arr. INT_MIN \<le> key r \<and> key r \<le> INT_MAX) \<and> int (length arr) \<le> INT_MAX"

text \<open>
  The key span \<open>maxKey - minKey + 1\<close> is representable in \<open>int\<close>: the
  difference of any two keys, plus one, is at most \<open>INT_MAX\<close>.
\<close>

definition span_fits :: "Record list \<Rightarrow> bool" where
  "span_fits arr \<longleftrightarrow> (\<forall>x\<in>set arr. \<forall>y\<in>set arr. key x - key y + 1 \<le> INT_MAX)"

text \<open>
  \<open>radixSortLSD\<close> runs without signed overflow: no key is \<open>INT_MIN\<close>, so
  that \<open>-minVal\<close> is representable, and the largest shifted key
  \<open>maxVal + shift\<close> is below \<open>10^9\<close>, so that the loop over \<open>exp\<close>
  stops at \<open>exp = 10^9\<close> at the latest and \<open>exp *= 10\<close> stays inside
  \<open>int\<close>.
\<close>

definition radix_fits :: "Record list \<Rightarrow> bool" where
  "radix_fits arr \<longleftrightarrow>
     (\<forall>x\<in>set arr. INT_MIN < key x \<and> key x < 1000000000
        \<and> (\<forall>y\<in>set arr. key x - key y < 1000000000))"

section \<open>Stable sorting of lists\<close>

lemma insort_key_order_cong:
  "(\<forall>y\<in>set ys. f x \<le> f y \<longleftrightarrow> g x \<le> g y) \<Longrightarrow> insort_key f x ys = insort_key g x ys"
  by (induction ys) auto

lemma sort_key_order_cong:
  "(\<forall>x\<in>set xs. \<forall>y\<in>set xs. f x \<le> f y \<longleftrightarrow> g x \<le> g y) \<Longrightarrow> sort_key f xs = sort_key g xs"
proof (induction xs)
  case Nil
  then show ?case by simp
next
  case (Cons x xs)
  then have ih: "sort_key f xs = sort_key g xs" by simp
  from Cons.prems have "\<forall>y\<in>set (sort_key g xs). f x \<le> f y \<longleftrightarrow> g x \<le> g y" by simp
  then have "insort_key f x (sort_key g xs) = insort_key g x (sort_key g xs)"
    by (rule insort_key_order_cong)
  with ih show ?case by simp
qed

lemma insort_key_map:
  "insort_key f (g x) (map g ys) = map g (insort_key (\<lambda>a. f (g a)) x ys)"
  by (induction ys) auto

lemma sort_key_map:
  "sort_key f (map g xs) = map g (sort_key (\<lambda>a. f (g a)) xs)"
  by (induction xs) (auto simp: insort_key_map)

lemma concat_single_bucket:
  "concat (map (\<lambda>v. if v = v0 then zs else []) [0..<R]) = (if v0 < R then zs else [])"
  by (induction R) auto

lemma concat_buckets_const:
  assumes "\<forall>z\<in>set zs. g z = v0" and "zs \<noteq> [] \<longrightarrow> v0 < R"
  shows "concat (map (\<lambda>v. filter (\<lambda>r. g r = v) zs) [0..<R]) = zs"
proof -
  have "filter (\<lambda>r. g r = v) zs = (if v = v0 then zs else [])" for v
    using assms(1) by (auto simp: filter_empty_conv)
  then have "concat (map (\<lambda>v. filter (\<lambda>r. g r = v) zs) [0..<R])
      = concat (map (\<lambda>v. if v = v0 then zs else []) [0..<R])"
    by simp
  also have "\<dots> = (if v0 < R then zs else [])"
    by (rule concat_single_bucket)
  also have "\<dots> = zs"
    using assms(2) by auto
  finally show ?thesis .
qed

lemma mset_concat_buckets:
  "mset (concat (map (\<lambda>v. sort_key f (filter (\<lambda>r. g r = v) xs)) [0..<R]))
     = mset (filter (\<lambda>r. g r < R) xs)"
proof (induction R)
  case 0
  then show ?case by simp
next
  case (Suc R)
  have "mset (filter (\<lambda>r. g r < R) xs) + mset (filter (\<lambda>r. g r = R) xs)
      = mset (filter (\<lambda>r. g r < Suc R) xs)"
    by (induction xs) auto
  with Suc show ?case by simp
qed

lemma sorted_concat_buckets:
  assumes "\<And>v. v < R \<Longrightarrow> sorted (map f (B v))"
    and "\<And>v x. v < R \<Longrightarrow> x \<in> set (B v) \<Longrightarrow> g x = v \<and> x \<in> S"
    and "\<And>x y. x \<in> S \<Longrightarrow> y \<in> S \<Longrightarrow> g x < g y \<Longrightarrow> f x \<le> f y"
  shows "sorted (map f (concat (map B [0..<R])))"
  using assms(1,2)
proof (induction R)
  case 0
  then show ?case by simp
next
  case (Suc R)
  have pre: "sorted (map f (concat (map B [0..<R])))"
  proof (rule Suc.IH)
    show "sorted (map f (B v))" if "v < R" for v
      using that Suc.prems(1) [of v] by simp
    show "g x = v \<and> x \<in> S" if "v < R" "x \<in> set (B v)" for v x
      using that Suc.prems(2) [of v x] by simp
  qed
  have last: "sorted (map f (B R))"
    using Suc.prems(1) by simp
  have "f a \<le> f b" if a: "a \<in> set (concat (map B [0..<R]))" and b: "b \<in> set (B R)" for a b
  proof -
    from a obtain v where v: "v < R" "a \<in> set (B v)" by auto
    with Suc.prems(2) [of v a] have ga: "g a = v" "a \<in> S" by simp_all
    from b Suc.prems(2) [of R b] have gb: "g b = R" "b \<in> S" by simp_all
    from ga gb v show ?thesis by (intro assms(3)) simp_all
  qed
  with pre last show ?case
    by (auto simp: sorted_append)
qed

lemma filter_swap:
  "filter P (filter Q zs) = filter Q (filter P zs)"
  by (induction zs) auto

lemma concat_sorted_buckets:
  fixes f :: "'a \<Rightarrow> 'b::linorder" and g :: "'a \<Rightarrow> nat"
  assumes bound: "\<forall>r\<in>set xs. g r < R"
    and mono: "\<forall>x\<in>set xs. \<forall>y\<in>set xs. g x < g y \<longrightarrow> f x < f y"
  shows "concat (map (\<lambda>v. sort_key f (filter (\<lambda>r. g r = v) xs)) [0..<R]) = sort_key f xs"
proof (rule sym, rule properties_for_sort_key)
  let ?ys = "concat (map (\<lambda>v. sort_key f (filter (\<lambda>r. g r = v) xs)) [0..<R])"
  have "filter (\<lambda>r. g r < R) xs = xs"
    using bound by (simp add: filter_id_conv)
  then show m: "mset ?ys = mset xs"
    by (simp only: mset_concat_buckets)
  show "sorted (map f ?ys)"
  proof (rule sorted_concat_buckets [where g = g and S = "set xs"])
    show "sorted (map f (sort_key f (filter (\<lambda>r. g r = v) xs)))" for v
      by simp
    show "g x = v \<and> x \<in> set xs" if "x \<in> set (sort_key f (filter (\<lambda>r. g r = v) xs))" for v x
      using that by simp
    show "f x \<le> f y" if "x \<in> set xs" "y \<in> set xs" "g x < g y" for x y
    proof -
      from that mono have "f x < f y" by blast
      then show ?thesis by simp
    qed
  qed
  fix k assume "k \<in> set ?ys"
  moreover from m have "set ?ys = set xs"
    by (rule mset_eq_setD)
  ultimately have k: "k \<in> set xs"
    by simp
  define P where "P = (\<lambda>x. f k = f x)"
  have same: "\<forall>z\<in>set (filter P xs). g z = g k"
  proof
    fix z assume "z \<in> set (filter P xs)"
    then have z: "z \<in> set xs" "f k = f z" by (simp_all add: P_def)
    have "\<not> g z < g k"
    proof
      assume "g z < g k"
      with mono z(1) k have "f z < f k" by blast
      with z(2) show False by simp
    qed
    moreover have "\<not> g k < g z"
    proof
      assume "g k < g z"
      with mono z(1) k have "f k < f z" by blast
      with z(2) show False by simp
    qed
    ultimately show "g z = g k" by simp
  qed
  have stable: "filter P (sort_key f zs) = filter P zs" for zs
    using sort_key_stable [of f "f k" zs] by (simp add: eq_commute P_def)
  have "filter P ?ys = concat (map (\<lambda>v. filter P (sort_key f (filter (\<lambda>r. g r = v) xs))) [0..<R])"
    by (simp only: filter_concat map_map comp_def)
  also have "\<dots> = concat (map (\<lambda>v. filter P (filter (\<lambda>r. g r = v) xs)) [0..<R])"
    by (simp only: stable)
  also have "\<dots> = concat (map (\<lambda>v. filter (\<lambda>r. g r = v) (filter P xs)) [0..<R])"
    by (simp only: filter_swap [of P])
  also have "\<dots> = filter P xs"
  proof (rule concat_buckets_const [where ?v0.0 = "g k"])
    show "\<forall>z\<in>set (filter P xs). g z = g k" by (rule same)
    show "filter P xs \<noteq> [] \<longrightarrow> g k < R" using bound k by simp
  qed
  finally show "filter (\<lambda>x. f k = f x) ?ys = filter (\<lambda>x. f k = f x) xs"
    by (simp only: P_def)
qed

lemma concat_buckets_eq_sort_key:
  fixes f :: "'a \<Rightarrow> 'b::linorder" and g :: "'a \<Rightarrow> nat"
  assumes bound: "\<forall>r\<in>set xs. g r < R"
    and mono: "\<forall>x\<in>set xs. \<forall>y\<in>set xs. g x < g y \<longleftrightarrow> f x < f y"
  shows "concat (map (\<lambda>v. filter (\<lambda>r. g r = v) xs) [0..<R]) = sort_key f xs"
proof -
  have "sort_key f (filter (\<lambda>r. g r = v) xs) = filter (\<lambda>r. g r = v) xs" for v
  proof (rule sort_key_id_if_sorted)
    have eq: "f x \<le> f y"
      if "x \<in> set (filter (\<lambda>r. g r = v) xs)" "y \<in> set (filter (\<lambda>r. g r = v) xs)" for x y
    proof -
      from that have xy: "x \<in> set xs" "y \<in> set xs" "g x = v" "g y = v" by simp_all
      with mono have "(g y < g x) = (f y < f x)" by blast
      with xy have "\<not> f y < f x" by simp
      then show ?thesis by simp
    qed
    have "sorted_wrt (\<lambda>x y. f x \<le> f y) (filter (\<lambda>r. g r = v) xs)"
    proof (rule sorted_wrt_mono_rel [of _ "\<lambda>_ _. True"])
      show "sorted_wrt (\<lambda>_ _. True) (filter (\<lambda>r. g r = v) xs)" by simp
    qed (rule eq)
    then show "sorted (map f (filter (\<lambda>r. g r = v) xs))"
      by (simp only: sorted_map)
  qed
  then have "concat (map (\<lambda>v. filter (\<lambda>r. g r = v) xs) [0..<R])
     = concat (map (\<lambda>v. sort_key f (filter (\<lambda>r. g r = v) xs)) [0..<R])"
    by simp
  also have "\<dots> = sort_key f xs"
  proof (rule concat_sorted_buckets)
    show "\<forall>r\<in>set xs. g r < R" by (rule bound)
    show "\<forall>x\<in>set xs. \<forall>y\<in>set xs. g x < g y \<longrightarrow> f x < f y"
      using mono by blast
  qed
  finally show ?thesis .
qed

lemma sorted_wrt_insort_key_lex:
  assumes "sorted_wrt (\<lambda>x y. d x \<le> d y \<and> (d x = d y \<longrightarrow> P x y)) ys"
    and "\<forall>y\<in>set ys. P x y"
  shows "sorted_wrt (\<lambda>x y. d x \<le> d y \<and> (d x = d y \<longrightarrow> P x y)) (insort_key d x ys)"
  using assms by (induction ys) (auto simp: set_insort_key)

lemma sorted_wrt_sort_key_lex:
  assumes "sorted_wrt P M"
  shows "sorted_wrt (\<lambda>x y. d x \<le> d y \<and> (d x = d y \<longrightarrow> P x y)) (sort_key d M)"
  using assms
proof (induction M)
  case Nil
  then show ?case by simp
next
  case (Cons x M)
  then show ?case
    by (auto intro!: sorted_wrt_insort_key_lex)
qed

lemma sort_key_lsd_step:
  fixes d :: "'a \<Rightarrow> 'b::linorder" and lo :: "'a \<Rightarrow> 'c::linorder" and h :: "'a \<Rightarrow> 'd::linorder"
  assumes lex: "\<forall>x\<in>set xs. \<forall>y\<in>set xs. h x \<le> h y \<longleftrightarrow> d x < d y \<or> (d x = d y \<and> lo x \<le> lo y)"
  shows "sort_key d (sort_key lo xs) = sort_key h xs"
proof (rule sym, rule properties_for_sort_key)
  let ?ys = "sort_key d (sort_key lo xs)"
  show "mset ?ys = mset xs" by simp
  have "sorted_wrt (\<lambda>x y. lo x \<le> lo y) (sort_key lo xs)"
    using sorted_sort_key [of lo xs] by (simp add: sorted_map)
  then have "sorted_wrt (\<lambda>x y. d x \<le> d y \<and> (d x = d y \<longrightarrow> lo x \<le> lo y)) ?ys"
    by (rule sorted_wrt_sort_key_lex)
  then have "sorted_wrt (\<lambda>x y. h x \<le> h y) ?ys"
  proof (rule sorted_wrt_mono_rel [rotated])
    fix x y assume "x \<in> set ?ys" "y \<in> set ?ys" "d x \<le> d y \<and> (d x = d y \<longrightarrow> lo x \<le> lo y)"
    with lex show "h x \<le> h y" by auto
  qed
  then show "sorted (map h ?ys)" by (simp add: sorted_map)
  fix k assume "k \<in> set ?ys"
  then have k: "k \<in> set xs" by simp
  have eq: "h k = h x \<longleftrightarrow> d x = d k \<and> lo x = lo k" if "x \<in> set xs" for x
  proof -
    have "h k = h x \<longleftrightarrow> h k \<le> h x \<and> h x \<le> h k" by auto
    also have "\<dots> \<longleftrightarrow> d x = d k \<and> lo x = lo k"
      using lex k that by auto
    finally show ?thesis .
  qed
  have "filter (\<lambda>x. h k = h x) ?ys = filter (\<lambda>x. d x = d k \<and> lo x = lo k) ?ys"
    by (rule filter_cong) (auto simp: eq)
  also have "\<dots> = filter (\<lambda>x. lo x = lo k) (filter (\<lambda>x. d x = d k) ?ys)"
    by (simp add: conj_commute)
  also have "\<dots> = filter (\<lambda>x. lo x = lo k) (filter (\<lambda>x. d x = d k) (sort_key lo xs))"
    by (simp only: sort_key_stable)
  also have "\<dots> = filter (\<lambda>x. d x = d k) (filter (\<lambda>x. lo x = lo k) (sort_key lo xs))"
    by (simp add: conj_commute)
  also have "\<dots> = filter (\<lambda>x. d x = d k) (filter (\<lambda>x. lo x = lo k) xs)"
    by (simp only: sort_key_stable)
  also have "\<dots> = filter (\<lambda>x. d x = d k \<and> lo x = lo k) xs"
    by (simp add: conj_commute)
  also have "\<dots> = filter (\<lambda>x. h k = h x) xs"
    by (rule filter_cong) (auto simp: eq)
  finally show "filter (\<lambda>x. h k = h x) ?ys = filter (\<lambda>x. h k = h x) xs" .
qed

section \<open>The counting passes\<close>

lemma int32_id: "INT_MIN \<le> x \<Longrightarrow> x \<le> INT_MAX \<Longrightarrow> int32 x = x"
  by (simp add: int32_def INT_MIN_def INT_MAX_def)

lemma vget_nat: "i < length xs \<Longrightarrow> vget xs (int i) = Some (xs ! i)"
  by (simp add: vget_def)

lemma vset_nat: "i < length xs \<Longrightarrow> vset xs (int i) v = Some (xs[i := v])"
  by (simp add: vset_def)

lemma count_keys_correct:
  assumes "length cnt = R"
    and "\<forall>r\<in>set xs. slot r = Some (int (g r)) \<and> g r < R"
    and "\<forall>v<R. 0 \<le> cnt ! v \<and> cnt ! v + int (length xs) \<le> INT_MAX"
  shows "count_keys slot xs cnt
     = Some (map (\<lambda>v. cnt ! v + int (length (filter (\<lambda>r. g r = v) xs))) [0..<R])"
  using assms
proof (induction xs arbitrary: cnt)
  case Nil
  then have "map ((!) cnt) [0..<R] = cnt"
    using map_nth [of cnt] by simp
  then show ?case
    by simp
next
  case (Cons r rest)
  let ?v = "g r"
  let ?cnt' = "cnt[?v := cnt ! ?v + 1]"
  from Cons.prems have v: "?v < length cnt" and slot: "slot r = Some (int ?v)"
    by simp_all
  from Cons.prems(3) v Cons.prems(1) have "0 \<le> cnt ! ?v" "cnt ! ?v + int (length (r # rest)) \<le> INT_MAX"
    by blast+
  then have "INT_MIN \<le> cnt ! ?v + 1" "cnt ! ?v + 1 \<le> INT_MAX"
    by (simp_all add: INT_MIN_def)
  then have wrap: "int32 (cnt ! ?v + 1) = cnt ! ?v + 1"
    by (rule int32_id)
  have step: "count_keys slot (r # rest) cnt = count_keys slot rest ?cnt'"
    using v slot wrap by (simp add: vget_nat vset_nat)
  have ih: "count_keys slot rest ?cnt'
     = Some (map (\<lambda>v. ?cnt' ! v + int (length (filter (\<lambda>r. g r = v) rest))) [0..<R])"
  proof (rule Cons.IH)
    show "length ?cnt' = R" using Cons.prems(1) by simp
    show "\<forall>r\<in>set rest. slot r = Some (int (g r)) \<and> g r < R"
      using Cons.prems(2) by simp
    show "\<forall>v<R. 0 \<le> ?cnt' ! v \<and> ?cnt' ! v + int (length rest) \<le> INT_MAX"
    proof (intro allI impI)
      fix u assume u: "u < R"
      with Cons.prems(3) have "0 \<le> cnt ! u" "cnt ! u + int (length (r # rest)) \<le> INT_MAX"
        by blast+
      with u Cons.prems(1) show "0 \<le> ?cnt' ! u \<and> ?cnt' ! u + int (length rest) \<le> INT_MAX"
        by (cases "u = ?v") simp_all
    qed
  qed
  have "map (\<lambda>v. ?cnt' ! v + int (length (filter (\<lambda>r. g r = v) rest))) [0..<R]
      = map (\<lambda>v. cnt ! v + int (length (filter (\<lambda>r. g r = v) (r # rest)))) [0..<R]"
  proof (rule map_cong [OF refl])
    fix u assume "u \<in> set [0..<R]"
    with Cons.prems(1) have "u < length cnt" by simp
    then show "?cnt' ! u + int (length (filter (\<lambda>r. g r = u) rest))
       = cnt ! u + int (length (filter (\<lambda>r. g r = u) (r # rest)))"
      by (cases "u = ?v") simp_all
  qed
  with step ih show ?case by simp
qed

lemma cumulate_correct:
  fixes lt a :: "nat \<Rightarrow> nat"
  assumes rec: "\<And>v. lt (Suc v) = lt v + a v"
    and bound: "\<And>v. v < R \<Longrightarrow> int (lt (Suc v)) \<le> INT_MAX"
  shows "1 \<le> k \<Longrightarrow>
     cnt = map (\<lambda>v. if v < k then int (lt (Suc v)) else int (a v)) [0..<R] \<Longrightarrow>
     cumulate [k..<R] cnt = Some (map (\<lambda>v. int (lt (Suc v))) [0..<R])"
proof (induction "R - k" arbitrary: k cnt)
  case 0
  then have e: "[k..<R] = []" by simp
  from 0 have "cnt = map (\<lambda>v. int (lt (Suc v))) [0..<R]"
    by (auto intro!: map_cong)
  then show ?case
    by (simp only: e cumulate.simps)
next
  case (Suc m)
  then have k: "k < R" "1 \<le> k" by simp_all
  then have upt: "[k..<R] = k # [Suc k..<R]"
    by (simp add: upt_conv_Cons)
  from Suc.prems(2) have len: "length cnt = R" by simp
  from Suc.prems(2) k have a: "cnt ! k = int (a k)" by simp
  from Suc.prems(2) k have b: "cnt ! (k - 1) = int (lt k)" by simp
  have "int (k - 1) = int k - 1" using k by simp
  with k len have gb: "vget cnt (int k - 1) = Some (cnt ! (k - 1))"
    using vget_nat [of "k - 1" cnt] by simp
  have "int (a k) + int (lt k) = int (lt (Suc k))"
    by (simp add: rec)
  moreover have "INT_MIN \<le> int (lt (Suc k))" by (simp add: INT_MIN_def)
  moreover have "int (lt (Suc k)) \<le> INT_MAX" using k bound by simp
  ultimately have wrap: "int32 (int (a k) + int (lt k)) = int (lt (Suc k))"
    by (simp add: int32_id)
  let ?cnt' = "cnt[k := int (lt (Suc k))]"
  have step: "cumulate [k..<R] cnt = cumulate [Suc k..<R] ?cnt'"
    using k len a b gb wrap by (simp add: upt vget_nat vset_nat)
  have "cumulate [Suc k..<R] ?cnt' = Some (map (\<lambda>v. int (lt (Suc v))) [0..<R])"
  proof (rule Suc.hyps(1))
    show "m = R - Suc k" using Suc.hyps(2) by simp
    show "1 \<le> Suc k" by simp
    show "?cnt' = map (\<lambda>v. if v < Suc k then int (lt (Suc v)) else int (a v)) [0..<R]"
    proof (rule nth_equalityI)
      show "length ?cnt' = length (map (\<lambda>v. if v < Suc k then int (lt (Suc v)) else int (a v)) [0..<R])"
        using len by simp
      fix i assume "i < length ?cnt'"
      then have i: "i < R" using len by simp
      with Suc.prems(2) len
      show "?cnt' ! i = map (\<lambda>v. if v < Suc k then int (lt (Suc v)) else int (a v)) [0..<R] ! i"
        by (cases "i = k") (auto simp: less_Suc_eq)
    qed
  qed
  with step show ?case by simp
qed

lemma below_Suc:
  fixes g :: "'a \<Rightarrow> nat"
  shows "length (filter (\<lambda>r. g r < Suc v) xs)
     = length (filter (\<lambda>r. g r < v) xs) + length (filter (\<lambda>r. g r = v) xs)"
  by (induction xs) auto

lemma below_mono:
  fixes g :: "'a \<Rightarrow> nat"
  shows "u \<le> v \<Longrightarrow> length (filter (\<lambda>r. g r < u) xs) \<le> length (filter (\<lambda>r. g r < v) xs)"
  by (induction xs) auto

lemma below_all:
  fixes g :: "'a \<Rightarrow> nat"
  shows "\<forall>r\<in>set xs. g r < R \<Longrightarrow> length (filter (\<lambda>r. g r < R) xs) = length xs"
  by (induction xs) auto

lemma place_correct:
  fixes arr :: "Record list" and g :: "Record \<Rightarrow> nat"
  assumes slots: "\<forall>r\<in>set arr. slot r = Some (int (g r)) \<and> g r < R"
    and len: "int (length arr) \<le> INT_MAX"
  defines "lt \<equiv> \<lambda>v. length (filter (\<lambda>r. g r < v) arr)"
    and "occ \<equiv> \<lambda>xs v. length (filter (\<lambda>r. g r = v) xs)"
  shows "arr = rev ws @ zs \<Longrightarrow> length cnt = R \<Longrightarrow> length out = length arr \<Longrightarrow>
    (\<forall>v<R. cnt ! v = int (lt v + occ (rev ws) v)) \<Longrightarrow>
    (\<forall>v<R. \<forall>j<occ zs v. out ! (lt v + occ (rev ws) v + j) = filter (\<lambda>r. g r = v) zs ! j) \<Longrightarrow>
    \<exists>out'. place slot ws cnt out = Some out' \<and> length out' = length arr \<and>
       (\<forall>v<R. \<forall>j<occ arr v. out' ! (lt v + j) = filter (\<lambda>r. g r = v) arr ! j)"
proof (induction ws arbitrary: zs cnt out)
  case Nil
  then show ?case by (simp add: occ_def)
next
  case (Cons r ws)
  define v0 where "v0 = g r"
  define p where "p = lt v0 + occ (rev ws) v0"
  have arr: "arr = rev ws @ (r # zs)"
    using Cons.prems(1) by simp
  then have "r \<in> set arr" by simp
  with slots have slot: "slot r = Some (int v0)" and v0: "v0 < R"
    by (simp_all add: v0_def)
  have occ_snoc: "occ (rev ws @ [r]) v = occ (rev ws) v + (if v = v0 then 1 else 0)" for v
    by (auto simp: occ_def v0_def)
  have occ_arr: "occ arr v = occ (rev ws) v + (if v = v0 then 1 else 0) + occ zs v" for v
    by (auto simp: occ_def v0_def arr)
  have lt_Suc: "lt (Suc v) = lt v + occ arr v" for v
    by (simp add: lt_def occ_def below_Suc)
  have lt_le: "lt v \<le> length arr" for v
    by (simp add: lt_def)
  have lt_mono: "u \<le> v \<Longrightarrow> lt u \<le> lt v" for u v
    by (simp add: lt_def below_mono)
  have "p + 1 \<le> lt v0 + occ arr v0"
    by (simp add: p_def occ_arr)
  also have "\<dots> \<le> length arr"
    using lt_le [of "Suc v0"] by (simp add: lt_Suc)
  finally have p: "p < length arr" by simp
  from Cons.prems(4) v0 have c: "cnt ! v0 = int p + 1"
    by (simp add: occ_snoc p_def)
  have "INT_MIN \<le> int p" by (simp add: INT_MIN_def)
  moreover have "int p \<le> INT_MAX" using p len by simp
  ultimately have wrap: "int32 (int p) = int p"
    by (rule int32_id)
  let ?cnt' = "cnt[v0 := int p]"
  let ?out' = "out[p := r]"
  have step: "place slot (r # ws) cnt out = place slot ws ?cnt' ?out'"
    using slot v0 c wrap p Cons.prems(2,3) by (simp add: vget_nat vset_nat)
  have "\<exists>out'. place slot ws ?cnt' ?out' = Some out' \<and> length out' = length arr \<and>
       (\<forall>v<R. \<forall>j<occ arr v. out' ! (lt v + j) = filter (\<lambda>r. g r = v) arr ! j)"
  proof (rule Cons.IH [of "r # zs"])
    show "arr = rev ws @ r # zs" by (rule arr)
    show "length ?cnt' = R" using Cons.prems(2) by simp
    show "length ?out' = length arr" using Cons.prems(3) by simp
    show "\<forall>v<R. ?cnt' ! v = int (lt v + occ (rev ws) v)"
    proof (intro allI impI)
      fix v assume v: "v < R"
      show "?cnt' ! v = int (lt v + occ (rev ws) v)"
      proof (cases "v = v0")
        case True
        with v Cons.prems(2) show ?thesis by (simp add: p_def)
      next
        case False
        with v Cons.prems(4) show ?thesis by (simp add: occ_snoc)
      qed
    qed
    show "\<forall>v<R. \<forall>j<occ (r # zs) v.
        ?out' ! (lt v + occ (rev ws) v + j) = filter (\<lambda>r. g r = v) (r # zs) ! j"
    proof (intro allI impI)
      fix v j assume v: "v < R" and j: "j < occ (r # zs) v"
      show "?out' ! (lt v + occ (rev ws) v + j) = filter (\<lambda>r. g r = v) (r # zs) ! j"
      proof (cases "v = v0")
        case True
        show ?thesis
        proof (cases j)
          case 0
          with True p Cons.prems(3) show ?thesis
            by (simp add: p_def v0_def)
        next
          case (Suc j')
          with j True have j': "j' < occ zs v0"
            by (simp add: occ_def v0_def)
          with Cons.prems(5) v0
          have "out ! (lt v0 + occ (rev (r # ws)) v0 + j') = filter (\<lambda>r. g r = v0) zs ! j'"
            by blast
          then have "out ! (p + Suc j') = filter (\<lambda>r. g r = v0) zs ! j'"
            by (simp add: occ_snoc p_def)
          with True Suc show ?thesis
            by (simp add: p_def [symmetric] v0_def [symmetric])
        qed
      next
        case False
        with j have j': "j < occ zs v"
          by (auto simp: occ_def v0_def)
        with Cons.prems(5) v
        have old: "out ! (lt v + occ (rev (r # ws)) v + j) = filter (\<lambda>r. g r = v) zs ! j"
          by blast
        define q where "q = lt v + occ (rev ws) v + j"
        have q_hi: "q < lt (Suc v)"
          using j' False by (simp add: q_def lt_Suc occ_arr)
        have q_lo: "lt v \<le> q" by (simp add: q_def)
        have p_hi: "p < lt (Suc v0)"
          by (simp add: p_def lt_Suc occ_arr)
        have p_lo: "lt v0 \<le> p" by (simp add: p_def)
        have "q \<noteq> p"
        proof (cases "v < v0")
          case True
          then have "lt (Suc v) \<le> lt v0" by (intro lt_mono) simp
          with q_hi p_lo show ?thesis by simp
        next
          case False
          with \<open>v \<noteq> v0\<close> have "lt (Suc v0) \<le> lt v" by (intro lt_mono) simp
          with p_hi q_lo show ?thesis by simp
        qed
        then have "?out' ! q = out ! q" by simp
        with old False show ?thesis
          by (simp add: q_def occ_snoc) (auto simp: v0_def)
      qed
    qed
  qed
  with step show ?case by simp
qed

lemma segments_concat:
  fixes g :: "'a \<Rightarrow> nat"
  assumes len: "length out = length arr"
    and bound: "\<forall>r\<in>set arr. g r < R"
    and seg: "\<forall>v<R. \<forall>j<length (filter (\<lambda>r. g r = v) arr).
        out ! (length (filter (\<lambda>r. g r < v) arr) + j) = filter (\<lambda>r. g r = v) arr ! j"
  shows "out = concat (map (\<lambda>v. filter (\<lambda>r. g r = v) arr) [0..<R])"
proof -
  have pre: "R' \<le> R \<Longrightarrow>
      take (length (filter (\<lambda>r. g r < R') arr)) out
        = concat (map (\<lambda>v. filter (\<lambda>r. g r = v) arr) [0..<R'])" for R'
  proof (induction R')
    case 0
    then show ?case by simp
  next
    case (Suc R')
    let ?a = "length (filter (\<lambda>r. g r < R') arr)"
    let ?b = "length (filter (\<lambda>r. g r = R') arr)"
    have "?a + ?b = length (filter (\<lambda>r. g r < Suc R') arr)"
      by (simp add: below_Suc)
    also have "\<dots> \<le> length arr" by simp
    finally have fit: "?a + ?b \<le> length out" using len by simp
    have "take ?b (drop ?a out) = filter (\<lambda>r. g r = R') arr"
    proof (rule nth_equalityI)
      show "length (take ?b (drop ?a out)) = length (filter (\<lambda>r. g r = R') arr)"
        using fit by simp
      fix j assume "j < length (take ?b (drop ?a out))"
      then have j: "j < ?b" by simp
      with seg Suc.prems have "out ! (?a + j) = filter (\<lambda>r. g r = R') arr ! j"
        by simp
      with j fit show "take ?b (drop ?a out) ! j = filter (\<lambda>r. g r = R') arr ! j"
        by simp
    qed
    moreover have "take ?a out = concat (map (\<lambda>v. filter (\<lambda>r. g r = v) arr) [0..<R'])"
      using Suc by simp
    ultimately show ?case
      by (simp add: below_Suc take_add)
  qed
  have "length (filter (\<lambda>r. g r < R) arr) = length out"
    using bound len by (simp add: below_all)
  with pre [of R] show ?thesis by simp
qed

lemma counting_pass:
  fixes arr :: "Record list" and g :: "Record \<Rightarrow> nat"
  assumes slots: "\<forall>r\<in>set arr. slot r = Some (int (g r)) \<and> g r < R"
    and len: "int (length arr) \<le> INT_MAX"
  shows "\<exists>cnt1 cnt2. count_keys slot arr (replicate R 0) = Some cnt1
     \<and> cumulate [1..<R] cnt1 = Some cnt2
     \<and> place slot (rev arr) cnt2 (replicate (length arr) z)
         = Some (concat (map (\<lambda>v. filter (\<lambda>r. g r = v) arr) [0..<R]))"
proof -
  define lt where "lt = (\<lambda>v. length (filter (\<lambda>r. g r < v) arr))"
  define occ where "occ = (\<lambda>v. length (filter (\<lambda>r. g r = v) arr))"
  define cnt1 where "cnt1 = map (\<lambda>v. int (occ v)) [0..<R]"
  define cnt2 where "cnt2 = map (\<lambda>v. int (lt (Suc v))) [0..<R]"
  have lt_Suc: "lt (Suc v) = lt v + occ v" for v
    by (simp add: lt_def occ_def below_Suc)
  have lt_le: "int (lt v) \<le> INT_MAX" for v
  proof -
    have "lt v \<le> length arr" by (simp add: lt_def)
    with len show ?thesis by simp
  qed
  have "count_keys slot arr (replicate R 0)
     = Some (map (\<lambda>v. replicate R 0 ! v + int (length (filter (\<lambda>r. g r = v) arr))) [0..<R])"
  proof (rule count_keys_correct)
    show "length (replicate R (0::int)) = R" by simp
    show "\<forall>r\<in>set arr. slot r = Some (int (g r)) \<and> g r < R" by (rule slots)
    show "\<forall>v<R. 0 \<le> replicate R (0::int) ! v \<and> replicate R 0 ! v + int (length arr) \<le> INT_MAX"
      using len by simp
  qed
  moreover have "map (\<lambda>v. replicate R 0 ! v + int (length (filter (\<lambda>r. g r = v) arr))) [0..<R] = cnt1"
    unfolding cnt1_def by (rule map_cong) (simp_all add: occ_def)
  ultimately have one: "count_keys slot arr (replicate R 0) = Some cnt1"
    by simp
  have two: "cumulate [1..<R] cnt1 = Some cnt2"
    unfolding cnt2_def
  proof (rule cumulate_correct [where a = occ])
    show "lt (Suc v) = lt v + occ v" for v by (rule lt_Suc)
    show "int (lt (Suc v)) \<le> INT_MAX" for v by (rule lt_le)
    show "(1::nat) \<le> 1" by simp
    have "lt (Suc 0) = occ 0"
      by (simp add: lt_Suc) (simp add: lt_def)
    then show "cnt1 = map (\<lambda>v. if v < 1 then int (lt (Suc v)) else int (occ v)) [0..<R]"
      unfolding cnt1_def by (intro map_cong) auto
  qed
  have "\<exists>out'. place slot (rev arr) cnt2 (replicate (length arr) z) = Some out'
       \<and> length out' = length arr
       \<and> (\<forall>v<R. \<forall>j<length (filter (\<lambda>r. g r = v) arr).
            out' ! (length (filter (\<lambda>r. g r < v) arr) + j) = filter (\<lambda>r. g r = v) arr ! j)"
  proof (rule place_correct [where zs = "[]" and R = R])
    show "\<forall>r\<in>set arr. slot r = Some (int (g r)) \<and> g r < R" by (rule slots)
    show "int (length arr) \<le> INT_MAX" by (rule len)
    show "arr = rev (rev arr) @ []" by simp
    show "length cnt2 = R" by (simp add: cnt2_def)
    show "length (replicate (length arr) z) = length arr" by simp
    show "\<forall>v<R. cnt2 ! v = int (length (filter (\<lambda>r. g r < v) arr)
        + length (filter (\<lambda>r. g r = v) (rev (rev arr))))"
      using lt_Suc by (simp add: cnt2_def lt_def occ_def)
    show "\<forall>v<R. \<forall>j<length (filter (\<lambda>r. g r = v) []).
        replicate (length arr) z ! (length (filter (\<lambda>r. g r < v) arr)
          + length (filter (\<lambda>r. g r = v) (rev (rev arr))) + j) = filter (\<lambda>r. g r = v) [] ! j"
      by simp
  qed
  then obtain out' where out': "place slot (rev arr) cnt2 (replicate (length arr) z) = Some out'"
    "length out' = length arr"
    "\<forall>v<R. \<forall>j<length (filter (\<lambda>r. g r = v) arr).
            out' ! (length (filter (\<lambda>r. g r < v) arr) + j) = filter (\<lambda>r. g r = v) arr ! j"
    by blast
  have "out' = concat (map (\<lambda>v. filter (\<lambda>r. g r = v) arr) [0..<R])"
    using out'(2) _ out'(3)
  proof (rule segments_concat)
    show "\<forall>r\<in>set arr. g r < R" using slots by simp
  qed
  with one two out'(1) show ?thesis by blast
qed


section \<open>Counting sort, stable: correctness\<close>

lemma Min_insert_insert:
  fixes a k :: int
  assumes "finite S"
  shows "Min (insert (min a k) S) = Min (insert a (insert k S))"
  using assms by (cases "S = {}") (simp_all add: min.assoc)

lemma Max_insert_insert:
  fixes a k :: int
  assumes "finite S"
  shows "Max (insert (max a k) S) = Max (insert a (insert k S))"
  using assms by (cases "S = {}") (simp_all add: max.assoc)

lemma getMinMax_loop_eq:
  "getMinMax_loop xs (a, b) = (Min (insert a (key ` set xs)), Max (insert b (key ` set xs)))"
proof (induction xs arbitrary: a b)
  case Nil
  then show ?case by simp
next
  case (Cons r rest)
  have "(if key r < a then key r else a) = min a (key r)"
    and "(if key r > b then key r else b) = max b (key r)"
    by (simp_all add: min_def max_def)
  then have "getMinMax_loop (r # rest) (a, b) = getMinMax_loop rest (min a (key r), max b (key r))"
    by simp
  also have "\<dots> = (Min (insert (min a (key r)) (key ` set rest)),
       Max (insert (max b (key r)) (key ` set rest)))"
    by (rule Cons.IH)
  also have "\<dots> = (Min (insert a (insert (key r) (key ` set rest))),
       Max (insert b (insert (key r) (key ` set rest))))"
    by (simp only: Min_insert_insert Max_insert_insert finite_imageI finite_set)
  finally show ?case by simp
qed

lemma getMinMax_eq:
  assumes "arr \<noteq> []"
  shows "getMinMax arr mm = (Min (key ` set arr), Max (key ` set arr))"
proof -
  from assms have "key (arr ! 0) \<in> key ` set arr" by simp
  then have "insert (key (arr ! 0)) (key ` set arr) = key ` set arr" by blast
  with assms show ?thesis
    by (simp add: getMinMax_def getMinMax_loop_eq)
qed

text \<open>What the sorts that index by \<open>key - minVal\<close> know after the range scan.\<close>

lemma scan_facts:
  assumes ne: "arr \<noteq> []" and wf: "well_formed arr" and span: "span_fits arr"
  defines "mn \<equiv> Min (key ` set arr)" and "mx \<equiv> Max (key ` set arr)"
  shows "getMinMax arr (0, 0) = (mn, mx)"
    and "\<forall>r\<in>set arr. mn \<le> key r \<and> key r \<le> mx"
    and "INT_MIN \<le> mn" and "mn \<le> mx" and "mx \<le> INT_MAX" and "mx - mn + 1 \<le> INT_MAX"
    and "int32 (int32 (mx - mn) + 1) = mx - mn + 1"
    and "\<forall>r\<in>set arr. int32 (key r - mn) = key r - mn"
    and "int32 (int (length arr)) = int (length arr)"
    and "int32 (int (length arr) - 1) = int (length arr) - 1"
proof -
  show "getMinMax arr (0, 0) = (mn, mx)"
    using ne by (simp add: getMinMax_eq mn_def mx_def)
  have fin: "finite (key ` set arr)" "key ` set arr \<noteq> {}"
    using ne by simp_all
  show bounds: "\<forall>r\<in>set arr. mn \<le> key r \<and> key r \<le> mx"
    using fin by (simp add: mn_def mx_def)
  from fin have "mn \<in> key ` set arr" "mx \<in> key ` set arr"
    unfolding mn_def mx_def by (rule Min_in, rule Max_in)
  then obtain rmin rmax where r: "rmin \<in> set arr" "key rmin = mn" "rmax \<in> set arr" "key rmax = mx"
    by auto
  with wf show lo: "INT_MIN \<le> mn" and hi: "mx \<le> INT_MAX"
    by (auto simp: well_formed_def)
  from r bounds show le: "mn \<le> mx" by auto
  from r span show sp: "mx - mn + 1 \<le> INT_MAX"
    by (auto simp: span_fits_def)
  from le sp have "int32 (mx - mn) = mx - mn"
    by (intro int32_id) (simp_all add: INT_MIN_def)
  moreover from le sp have "int32 (mx - mn + 1) = mx - mn + 1"
    by (intro int32_id) (simp_all add: INT_MIN_def)
  ultimately show "int32 (int32 (mx - mn) + 1) = mx - mn + 1"
    by simp
  show "\<forall>r\<in>set arr. int32 (key r - mn) = key r - mn"
  proof
    fix r assume "r \<in> set arr"
    with bounds have "mn \<le> key r" "key r \<le> mx" by simp_all
    with sp show "int32 (key r - mn) = key r - mn"
      by (intro int32_id) (simp_all add: INT_MIN_def)
  qed
  from wf have l: "int (length arr) \<le> INT_MAX" by (simp add: well_formed_def)
  then show "int32 (int (length arr)) = int (length arr)"
    by (intro int32_id) (simp_all add: INT_MIN_def)
  from l show "int32 (int (length arr) - 1) = int (length arr) - 1"
    by (intro int32_id) (simp_all add: INT_MIN_def)
qed

lemma countingSortStable_sort:
  assumes wf: "well_formed arr" and span: "span_fits arr"
  shows "countingSortStable arr = Some (sort_key key arr)"
proof (cases "arr = []")
  case True
  then show ?thesis by (simp add: countingSortStable_def)
next
  case False
  define mn where "mn = Min (key ` set arr)"
  define mx where "mx = Max (key ` set arr)"
  define R where "R = nat (mx - mn + 1)"
  define g where "g = (\<lambda>r::Record. nat (key r - mn))"
  define slot where "slot = (\<lambda>r::Record. Some (int32 (key r - mn)))"
  note f = scan_facts [OF False wf span, folded mn_def mx_def]
  have R: "int R = mx - mn + 1" using f(4) by (simp add: R_def)
  have slots: "\<forall>r\<in>set arr. slot r = Some (int (g r)) \<and> g r < R"
  proof
    fix r assume r: "r \<in> set arr"
    with f(2) have "mn \<le> key r" "key r \<le> mx" by simp_all
    moreover from r f(8) have "int32 (key r - mn) = key r - mn" by simp
    ultimately show "slot r = Some (int (g r)) \<and> g r < R"
      by (simp add: slot_def g_def R_def)
  qed
  from wf have len: "int (length arr) \<le> INT_MAX" by (simp add: well_formed_def)
  from counting_pass [OF slots len, of zero_Record]
  obtain cnt1 cnt2 where pass: "count_keys slot arr (replicate R 0) = Some cnt1"
    "cumulate [1..<R] cnt1 = Some cnt2"
    "place slot (rev arr) cnt2 (replicate (length arr) zero_Record)
       = Some (concat (map (\<lambda>v. filter (\<lambda>r. g r = v) arr) [0..<R]))"
    by blast
  have "concat (map (\<lambda>v. filter (\<lambda>r. g r = v) arr) [0..<R]) = sort_key key arr"
  proof (rule concat_buckets_eq_sort_key)
    show "\<forall>r\<in>set arr. g r < R" using slots by simp
    show "\<forall>x\<in>set arr. \<forall>y\<in>set arr. (g x < g y) = (key x < key y)"
      using f(2) by (auto simp: g_def)
  qed
  with pass(3) have place: "place slot (rev arr) cnt2 (replicate (length arr) zero_Record)
      = Some (sort_key key arr)" by simp
  have new: "vnew (int R) (0::int) = Some (replicate R 0)"
    by (simp add: vnew_def)
  have all: "first_n (int (length arr)) arr = arr"
    by (simp add: first_n_def)
  show ?thesis
    using False pass(1,2) place
    by (simp add: countingSortStable_def f(1) f(7) f(10) R [symmetric] new all slot_def)
qed


section \<open>Bucket sort and pigeonhole sort: correctness\<close>

lemma scatter_correct:
  assumes "length bs = R"
    and "\<forall>r\<in>set xs. slot r = Some (int (g r)) \<and> g r < R"
  shows "scatter slot xs bs = Some (map (\<lambda>v. bs ! v @ filter (\<lambda>r. g r = v) xs) [0..<R])"
  using assms
proof (induction xs arbitrary: bs)
  case Nil
  then have "map ((!) bs) [0..<R] = bs"
    using map_nth [of bs] by simp
  then show ?case by simp
next
  case (Cons r rest)
  let ?v = "g r"
  let ?bs' = "bs[?v := bs ! ?v @ [r]]"
  from Cons.prems have v: "?v < length bs" and slot: "slot r = Some (int ?v)"
    by simp_all
  have step: "scatter slot (r # rest) bs = scatter slot rest ?bs'"
    using v slot by (simp add: vget_nat vset_nat)
  have ih: "scatter slot rest ?bs'
     = Some (map (\<lambda>v. ?bs' ! v @ filter (\<lambda>r. g r = v) rest) [0..<R])"
  proof (rule Cons.IH)
    show "length ?bs' = R" using Cons.prems(1) by simp
    show "\<forall>r\<in>set rest. slot r = Some (int (g r)) \<and> g r < R"
      using Cons.prems(2) by simp
  qed
  have "map (\<lambda>v. ?bs' ! v @ filter (\<lambda>r. g r = v) rest) [0..<R]
      = map (\<lambda>v. bs ! v @ filter (\<lambda>r. g r = v) (r # rest)) [0..<R]"
  proof (rule map_cong [OF refl])
    fix u assume "u \<in> set [0..<R]"
    with Cons.prems(1) have "u < length bs" by simp
    then show "?bs' ! u @ filter (\<lambda>r. g r = u) rest = bs ! u @ filter (\<lambda>r. g r = u) (r # rest)"
      by (cases "u = ?v") simp_all
  qed
  with step ih show ?case by simp
qed

lemma scatter_empty:
  assumes "\<forall>r\<in>set xs. slot r = Some (int (g r)) \<and> g r < R"
  shows "scatter slot xs (replicate R []) = Some (map (\<lambda>v. filter (\<lambda>r. g r = v) xs) [0..<R])"
proof -
  have "scatter slot xs (replicate R [])
      = Some (map (\<lambda>v. replicate R [] ! v @ filter (\<lambda>r. g r = v) xs) [0..<R])"
    using assms by (intro scatter_correct) simp_all
  moreover have "map (\<lambda>v. replicate R [] ! v @ filter (\<lambda>r. g r = v) xs) [0..<R]
      = map (\<lambda>v. filter (\<lambda>r. g r = v) xs) [0..<R]"
    by (rule map_cong) simp_all
  ultimately show ?thesis by simp
qed

lemma write_items_correct:
  "i + length items \<le> length arr \<Longrightarrow> int (length arr) \<le> INT_MAX \<Longrightarrow>
   write_items items (arr, int i)
     = Some (take i arr @ items @ drop (i + length items) arr, int (i + length items))"
proof (induction items arbitrary: arr i)
  case Nil
  then show ?case by simp
next
  case (Cons item rest)
  then have i: "i < length arr" by simp
  let ?arr' = "arr[i := item]"
  have "INT_MIN \<le> int i + 1" by (simp add: INT_MIN_def)
  moreover have "int i + 1 \<le> INT_MAX" using i Cons.prems(2) by simp
  ultimately have wrap: "int32 (int i + 1) = int (Suc i)"
    by (simp add: int32_id)
  have step: "write_items (item # rest) (arr, int i) = write_items rest (?arr', int (Suc i))"
    using i wrap by (simp add: vset_nat)
  have "write_items rest (?arr', int (Suc i))
     = Some (take (Suc i) ?arr' @ rest @ drop (Suc i + length rest) ?arr', int (Suc i + length rest))"
    using Cons.prems by (intro Cons.IH) simp_all
  moreover have "take (Suc i) ?arr' = take i arr @ [item]"
    using i by (simp add: take_Suc_conv_app_nth)
  moreover have "drop (Suc i + length rest) ?arr' = drop (Suc i + length rest) arr"
    by simp
  ultimately show ?case
    using step by simp
qed

lemma copy_back_correct:
  "i + length (concat hs) \<le> length arr \<Longrightarrow> int (length arr) \<le> INT_MAX \<Longrightarrow>
   copy_back hs (arr, int i)
     = Some (take i arr @ concat hs @ drop (i + length (concat hs)) arr,
             int (i + length (concat hs)))"
proof (induction hs arbitrary: arr i)
  case Nil
  then show ?case by simp
next
  case (Cons h rest)
  let ?arr' = "take i arr @ h @ drop (i + length h) arr"
  let ?i' = "i + length h"
  from Cons.prems have fit: "i + length h \<le> length arr" by simp
  then have w: "write_items h (arr, int i) = Some (?arr', int ?i')"
    using Cons.prems(2) by (rule write_items_correct)
  have len: "length ?arr' = length arr" using fit by simp
  have "copy_back rest (?arr', int ?i')
      = Some (take ?i' ?arr' @ concat rest @ drop (?i' + length (concat rest)) ?arr',
              int (?i' + length (concat rest)))"
    using Cons.prems len by (intro Cons.IH) simp_all
  moreover have "take ?i' ?arr' = take i arr @ h"
    using fit by simp
  moreover have "drop (?i' + length (concat rest)) ?arr'
      = drop (i + length (concat (h # rest))) arr"
    using fit by (simp add: ac_simps)
  ultimately show ?case
    using w by (simp add: add.assoc)
qed

lemma copy_back_all:
  assumes "length (concat hs) = length arr" and "int (length arr) \<le> INT_MAX"
  shows "copy_back hs (arr, 0) = Some (concat hs, int (length arr))"
  using copy_back_correct [of 0 hs arr] assms by simp

lemma sort_and_copy_back_eq:
  "sort_and_copy_back bs st = copy_back (map (sort_key key) bs) st"
  by (induction bs arbitrary: st) (simp_all add: stable_sort_by_key_def cong: Option.bind_cong)

lemma pigeonholeSort_sort:
  assumes wf: "well_formed arr" and span: "span_fits arr"
  shows "pigeonholeSort arr = Some (sort_key key arr)"
proof (cases "arr = []")
  case True
  then show ?thesis by (simp add: pigeonholeSort_def)
next
  case False
  define mn where "mn = Min (key ` set arr)"
  define mx where "mx = Max (key ` set arr)"
  define R where "R = nat (mx - mn + 1)"
  define g where "g = (\<lambda>r::Record. nat (key r - mn))"
  define slot where "slot = (\<lambda>r::Record. Some (int32 (key r - mn)))"
  define holes where "holes = map (\<lambda>v. filter (\<lambda>r. g r = v) arr) [0..<R]"
  note f = scan_facts [OF False wf span, folded mn_def mx_def]
  have R: "int R = mx - mn + 1" using f(4) by (simp add: R_def)
  have slots: "\<forall>r\<in>set arr. slot r = Some (int (g r)) \<and> g r < R"
  proof
    fix r assume r: "r \<in> set arr"
    with f(2) have "mn \<le> key r" "key r \<le> mx" by simp_all
    moreover from r f(8) have "int32 (key r - mn) = key r - mn" by simp
    ultimately show "slot r = Some (int (g r)) \<and> g r < R"
      by (simp add: slot_def g_def R_def)
  qed
  from wf have len: "int (length arr) \<le> INT_MAX" by (simp add: well_formed_def)
  have sc: "scatter slot arr (replicate R []) = Some holes"
    unfolding holes_def using slots by (rule scatter_empty)
  have sorted: "concat holes = sort_key key arr"
    unfolding holes_def
  proof (rule concat_buckets_eq_sort_key)
    show "\<forall>r\<in>set arr. g r < R" using slots by simp
    show "\<forall>x\<in>set arr. \<forall>y\<in>set arr. (g x < g y) = (key x < key y)"
      using f(2) by (auto simp: g_def)
  qed
  then have "length (concat holes) = length arr" by simp
  then have cb: "copy_back holes (arr, 0) = Some (sort_key key arr, int (length arr))"
    using len sorted copy_back_all [of holes arr] by simp
  have new: "vnew (int R) ([]::Record list) = Some (replicate R [])"
    by (simp add: vnew_def)
  show ?thesis
    using False sc cb
    by (simp add: pigeonholeSort_def f(1) f(7) R [symmetric] new slot_def)
qed

lemma sdiv_nonneg:
  fixes a b :: int
  assumes "0 \<le> a" and "0 < b"
  shows "a sdiv b = a div b"
  using assms by (cases "a = 0") (simp_all add: signed_divide_int_def)

lemma int_div_less:
  fixes a b n :: int
  assumes "0 < b" and "a < n * b"
  shows "a div b < n"
proof (rule ccontr)
  assume "\<not> a div b < n"
  then have "n \<le> a div b" by simp
  with assms(1) have "n * b \<le> a div b * b"
    by (simp add: mult_right_mono)
  moreover have "a div b * b + a mod b = a" by simp
  moreover have "0 \<le> a mod b" using assms(1) by simp
  ultimately show False using assms(2) by linarith
qed

lemma bucketSort_sort:
  assumes wf: "well_formed arr" and span: "span_fits arr"
  shows "bucketSort arr = Some (sort_key key arr)"
proof (cases "arr = []")
  case True
  then show ?thesis by (simp add: bucketSort_def)
next
  case False
  define mn where "mn = Min (key ` set arr)"
  define mx where "mx = Max (key ` set arr)"
  define n where "n = length arr"
  define rg where "rg = mx - mn + 1"
  define g where "g = (\<lambda>r::Record. nat ((key r - mn) * int n div rg))"
  define slot where "slot = bucket_index mn (int n) rg"
  define buckets where "buckets = map (\<lambda>v. filter (\<lambda>r. g r = v) arr) [0..<n]"
  note f = scan_facts [OF False wf span, folded mn_def mx_def]
  from wf have len: "int n \<le> INT_MAX" by (simp add: well_formed_def n_def)
  have rg: "0 < rg" using f(4) by (simp add: rg_def)
  have q: "0 \<le> (key r - mn) * int n div rg \<and> (key r - mn) * int n div rg < int n"
    if r: "r \<in> set arr" for r
  proof -
    from r f(2) have d: "0 \<le> key r - mn" "key r - mn < rg"
      by (simp_all add: rg_def)
    then have "0 \<le> (key r - mn) * int n" by simp
    with rg have lo: "0 \<le> (key r - mn) * int n div rg"
      by (simp add: pos_imp_zdiv_nonneg_iff)
    from r have "0 < n" by (auto simp: n_def)
    with d have "(key r - mn) * int n < rg * int n"
      by simp
    then have "(key r - mn) * int n < int n * rg"
      by (simp add: mult.commute)
    with rg have "(key r - mn) * int n div rg < int n"
      by (intro int_div_less)
    with lo show ?thesis by simp
  qed
  have slots: "\<forall>r\<in>set arr. slot r = Some (int (g r)) \<and> g r < n"
  proof
    fix r assume r: "r \<in> set arr"
    from q [OF r] have lo: "0 \<le> (key r - mn) * int n div rg"
      and hi: "(key r - mn) * int n div rg < int n" by simp_all
    from r f(2) have d: "0 \<le> key r - mn" by simp
    from r f(8) have w1: "int32 (key r - mn) = key r - mn" by simp
    from d rg have sd: "((key r - mn) * int n) sdiv rg = (key r - mn) * int n div rg"
      by (intro sdiv_nonneg) simp_all
    from lo hi len have w2: "int32 ((key r - mn) * int n div rg) = (key r - mn) * int n div rg"
      by (intro int32_id) (simp_all add: INT_MIN_def)
    from rg hi lo show "slot r = Some (int (g r)) \<and> g r < n"
      by (simp add: slot_def bucket_index_def w1 sd w2 g_def Let_def)
  qed
  have sc: "scatter slot arr (replicate n []) = Some buckets"
    unfolding buckets_def using slots by (rule scatter_empty)
  have sorted: "concat (map (sort_key key) buckets) = sort_key key arr"
  proof -
    have "concat (map (\<lambda>v. sort_key key (filter (\<lambda>r. g r = v) arr)) [0..<n]) = sort_key key arr"
    proof (rule concat_sorted_buckets)
      show "\<forall>r\<in>set arr. g r < n" using slots by simp
      show "\<forall>x\<in>set arr. \<forall>y\<in>set arr. g x < g y \<longrightarrow> key x < key y"
      proof (intro ballI impI)
        fix x y assume x: "x \<in> set arr" and y: "y \<in> set arr" and lt: "g x < g y"
        show "key x < key y"
        proof (rule ccontr)
          assume "\<not> key x < key y"
          then have "(key y - mn) * int n \<le> (key x - mn) * int n"
            by (simp add: mult_right_mono)
          then have "(key y - mn) * int n div rg \<le> (key x - mn) * int n div rg"
            using rg by (simp add: zdiv_mono1)
          then have "g y \<le> g x" by (simp add: g_def)
          with lt show False by simp
        qed
      qed
    qed
    then show ?thesis by (simp add: buckets_def comp_def)
  qed
  then have "length (concat (map (sort_key key) buckets)) = length arr" by simp
  then have cb: "sort_and_copy_back buckets (arr, 0) = Some (sort_key key arr, int (length arr))"
    using len sorted copy_back_all [of "map (sort_key key) buckets" arr]
    by (simp add: sort_and_copy_back_eq n_def)
  have new: "vnew (int n) ([]::Record list) = Some (replicate n [])"
    by (simp add: vnew_def)
  have all: "first_n (int (length arr)) arr = arr"
    by (simp add: first_n_def)
  show ?thesis
    using False sc cb unfolding slot_def rg_def n_def
    by (simp add: bucketSort_def f(1) f(9) new [unfolded n_def] all)
qed


section \<open>LSD radix sort: correctness\<close>

lemma smod_nonneg:
  fixes a b :: int
  assumes "0 \<le> a" and "0 < b"
  shows "a smod b = a mod b"
  using assms by (cases "a = 0") (simp_all add: signed_modulo_int_def)

lemma digit_nonneg:
  assumes "0 \<le> key r" and "0 < exp"
  shows "digit exp r = Some (int (nat ((key r div exp) mod 10)))"
    and "nat ((key r div exp) mod 10) < 10"
proof -
  from assms have q: "0 \<le> key r div exp"
    by (simp add: pos_imp_zdiv_nonneg_iff)
  from assms have "cdiv (key r) exp = Some (key r div exp)"
    by (simp add: cdiv_def sdiv_nonneg INT_MIN_def)
  moreover from q have "(key r div exp) smod 10 = (key r div exp) mod 10"
    by (intro smod_nonneg) simp_all
  ultimately show "digit exp r = Some (int (nat ((key r div exp) mod 10)))"
    by (simp add: digit_def)
  show "nat ((key r div exp) mod 10) < 10"
    by simp
qed

lemma radix_pass_sort:
  assumes keys: "\<forall>r\<in>set arr. 0 \<le> key r"
    and len: "int (length arr) \<le> INT_MAX"
    and exp: "0 < exp"
  shows "radix_pass exp arr = Some (sort_key (\<lambda>r. nat ((key r div exp) mod 10)) arr)"
proof -
  define g where "g = (\<lambda>r::Record. nat ((key r div exp) mod 10))"
  have slots: "\<forall>r\<in>set arr. digit exp r = Some (int (g r)) \<and> g r < 10"
    using keys exp by (simp add: g_def digit_nonneg)
  from counting_pass [OF slots len, of zero_Record]
  obtain cnt1 cnt2 where pass: "count_keys (digit exp) arr (replicate 10 0) = Some cnt1"
    "cumulate [1..<10] cnt1 = Some cnt2"
    "place (digit exp) (rev arr) cnt2 (replicate (length arr) zero_Record)
       = Some (concat (map (\<lambda>v. filter (\<lambda>r. g r = v) arr) [0..<10]))"
    by blast
  have "concat (map (\<lambda>v. filter (\<lambda>r. g r = v) arr) [0..<10]) = sort_key g arr"
    using slots by (intro concat_buckets_eq_sort_key) simp_all
  with pass(3) have place: "place (digit exp) (rev arr) cnt2 (replicate (length arr) zero_Record)
      = Some (sort_key g arr)" by simp
  from len have n: "int32 (int (length arr)) = int (length arr)"
    by (intro int32_id) (simp_all add: INT_MIN_def)
  have new: "vnew (int (length arr)) zero_Record = Some (replicate (length arr) zero_Record)"
    by (simp add: vnew_def)
  have all: "first_n (int (length arr)) arr = arr"
    by (simp add: first_n_def)
  show ?thesis
    using pass(1,2) place
    by (simp add: radix_pass_def n new all g_def)
qed

lemma lex_compare:
  fixes E dx dy lx ly :: int
  assumes "0 \<le> lx" "lx < E" "0 \<le> ly" "ly < E"
  shows "E * dx + lx \<le> E * dy + ly \<longleftrightarrow> dx < dy \<or> (dx = dy \<and> lx \<le> ly)"
proof -
  have E: "0 < E" using assms by simp
  consider "dx < dy" | "dx = dy" | "dy < dx" by linarith
  then show ?thesis
  proof cases
    case 1
    then have "dx + 1 \<le> dy" by simp
    with E have "E * (dx + 1) \<le> E * dy" by (simp only: mult_left_mono less_imp_le)
    then have "E * dx + E \<le> E * dy" by (simp add: algebra_simps)
    with assms 1 show ?thesis by simp
  next
    case 2
    then show ?thesis by simp
  next
    case 3
    then have "dy + 1 \<le> dx" by simp
    with E have "E * (dy + 1) \<le> E * dx" by (simp only: mult_left_mono less_imp_le)
    then have "E * dy + E \<le> E * dx" by (simp add: algebra_simps)
    with assms 3 show ?thesis by simp
  qed
qed

lemma digit_step:
  fixes x y E :: int
  assumes E: "0 < E"
  shows "x mod (E * 10) \<le> y mod (E * 10) \<longleftrightarrow>
     nat ((x div E) mod 10) < nat ((y div E) mod 10)
     \<or> (nat ((x div E) mod 10) = nat ((y div E) mod 10) \<and> x mod E \<le> y mod E)"
proof -
  have "x mod (E * 10) = E * ((x div E) mod 10) + x mod E"
    and "y mod (E * 10) = E * ((y div E) mod 10) + y mod E"
    by (simp_all add: zmod_zmult2_eq)
  moreover have "0 \<le> x mod E" "x mod E < E" "0 \<le> y mod E" "y mod E < E"
    using E by simp_all
  ultimately have "x mod (E * 10) \<le> y mod (E * 10) \<longleftrightarrow>
      (x div E) mod 10 < (y div E) mod 10
      \<or> ((x div E) mod 10 = (y div E) mod 10 \<and> x mod E \<le> y mod E)"
    by (simp only: lex_compare)
  moreover have "0 \<le> (x div E) mod 10" "0 \<le> (y div E) mod 10" by simp_all
  then have "nat ((x div E) mod 10) < nat ((y div E) mod 10) \<longleftrightarrow> (x div E) mod 10 < (y div E) mod 10"
    and "nat ((x div E) mod 10) = nat ((y div E) mod 10) \<longleftrightarrow> (x div E) mod 10 = (y div E) mod 10"
    by linarith+
  ultimately show ?thesis
    by (simp only:)
qed

lemma radix_pass_step:
  assumes keys: "\<forall>r\<in>set arr. 0 \<le> key r"
    and len: "int (length arr) \<le> INT_MAX"
    and E: "0 < E"
  shows "radix_pass E (sort_key (\<lambda>r. key r mod E) arr) = Some (sort_key (\<lambda>r. key r mod (E * 10)) arr)"
proof -
  have "radix_pass E (sort_key (\<lambda>r. key r mod E) arr)
      = Some (sort_key (\<lambda>r. nat ((key r div E) mod 10)) (sort_key (\<lambda>r. key r mod E) arr))"
    using keys len E by (intro radix_pass_sort) simp_all
  moreover have "sort_key (\<lambda>r. nat ((key r div E) mod 10)) (sort_key (\<lambda>r. key r mod E) arr)
      = sort_key (\<lambda>r. key r mod (E * 10)) arr"
    by (rule sort_key_lsd_step) (simp add: digit_step [OF E])
  ultimately show ?thesis by simp
qed

lemma radix_loop_stop:
  "cdiv maxKey exp = Some q \<Longrightarrow> q \<le> 0 \<Longrightarrow> radix_loop maxKey exp arr = Some arr"
  by (subst radix_loop.simps) simp

lemma radix_loop_step:
  "cdiv maxKey exp = Some q \<Longrightarrow> 0 < q \<Longrightarrow> radix_pass exp arr = Some arr' \<Longrightarrow>
   radix_loop maxKey exp arr = radix_loop maxKey (int32 (exp * 10)) arr'"
  by (subst radix_loop.simps) simp

lemma cdiv_pos:
  "0 \<le> a \<Longrightarrow> 0 < b \<Longrightarrow> cdiv a b = Some (a div b)"
  by (simp add: cdiv_def sdiv_nonneg INT_MIN_def)

lemma sort_key_mod_id:
  fixes E :: int
  assumes "\<forall>r\<in>set arr. 0 \<le> key r \<and> key r < E"
  shows "sort_key (\<lambda>r. key r mod E) arr = sort_key key arr"
  using assms by (intro sort_key_order_cong) simp

lemma int_div_nonpos_less:
  fixes a b :: int
  assumes "0 \<le> a" and "0 < b" and "\<not> 0 < a div b"
  shows "a < b"
proof -
  from assms(1,2) have "0 \<le> a div b"
    by (simp add: pos_imp_zdiv_nonneg_iff)
  with assms(3) have "a div b = 0" by simp
  moreover have "a div b * b + a mod b = a" by simp
  ultimately have "a = a mod b" by simp
  moreover have "a mod b < b" using assms(2) by simp
  ultimately show ?thesis by simp
qed

lemma radix_loop_small:
  assumes keys: "\<forall>r\<in>set arr. 0 \<le> key r \<and> key r \<le> maxKey"
    and maxKey: "0 \<le> maxKey"
    and E: "0 < E" "\<not> 0 < maxKey div E"
  shows "radix_loop maxKey E (sort_key (\<lambda>r. key r mod E) arr) = Some (sort_key key arr)"
proof -
  from maxKey E have "maxKey < E"
    by (rule int_div_nonpos_less)
  with keys have "\<forall>r\<in>set arr. 0 \<le> key r \<and> key r < E" by auto
  then have "sort_key (\<lambda>r. key r mod E) arr = sort_key key arr"
    by (rule sort_key_mod_id)
  moreover have "radix_loop maxKey E (sort_key (\<lambda>r. key r mod E) arr)
      = Some (sort_key (\<lambda>r. key r mod E) arr)"
  proof (rule radix_loop_stop)
    show "cdiv maxKey E = Some (maxKey div E)"
      using maxKey E(1) by (rule cdiv_pos)
    show "maxKey div E \<le> 0" using E(2) by simp
  qed
  ultimately show ?thesis by simp
qed

lemma radix_loop_next:
  assumes keys: "\<forall>r\<in>set arr. 0 \<le> key r \<and> key r \<le> maxKey"
    and maxKey: "0 \<le> maxKey"
    and len: "int (length arr) \<le> INT_MAX"
    and E: "0 < E" "0 < maxKey div E"
  shows "radix_loop maxKey E (sort_key (\<lambda>r. key r mod E) arr)
      = radix_loop maxKey (int32 (E * 10)) (sort_key (\<lambda>r. key r mod (E * 10)) arr)"
proof (rule radix_loop_step [OF _ E(2)])
  show "cdiv maxKey E = Some (maxKey div E)"
    using maxKey E(1) by (rule cdiv_pos)
  from keys have "\<forall>r\<in>set arr. 0 \<le> key r" by simp
  then show "radix_pass E (sort_key (\<lambda>r. key r mod E) arr)
      = Some (sort_key (\<lambda>r. key r mod (E * 10)) arr)"
    using len E(1) by (rule radix_pass_step)
qed

lemma radix_loop_digits:
  assumes keys: "\<forall>r\<in>set arr. 0 \<le> key r \<and> key r \<le> maxKey"
    and maxKey: "0 \<le> maxKey" "maxKey < 1000000000"
    and len: "int (length arr) \<le> INT_MAX"
  shows "k \<le> 9 \<Longrightarrow>
    radix_loop maxKey (10 ^ k) (sort_key (\<lambda>r. key r mod 10 ^ k) arr) = Some (sort_key key arr)"
proof (induction "9 - k" arbitrary: k)
  case 0
  then have "k = 9" by simp
  moreover have "(10::int) ^ 9 = 1000000000" by simp
  ultimately have E: "(10::int) ^ k = 1000000000" by (simp only:)
  from maxKey have "maxKey div 1000000000 = 0"
    by (simp add: div_pos_pos_trivial)
  then have "\<not> 0 < maxKey div 1000000000" by simp
  with keys maxKey(1)
  have "radix_loop maxKey 1000000000 (sort_key (\<lambda>r. key r mod 1000000000) arr)
      = Some (sort_key key arr)"
    by (intro radix_loop_small) simp_all
  then show ?case by (simp only: E)
next
  case (Suc m)
  then have k: "k < 9" by simp
  have E: "(0::int) < 10 ^ k" by simp
  show ?case
  proof (cases "0 < maxKey div 10 ^ k")
    case False
    with keys maxKey(1) E show ?thesis
      by (intro radix_loop_small)
  next
    case True
    have "radix_loop maxKey (10 ^ k) (sort_key (\<lambda>r. key r mod 10 ^ k) arr)
        = radix_loop maxKey (int32 (10 ^ k * 10)) (sort_key (\<lambda>r. key r mod (10 ^ k * 10)) arr)"
      using keys maxKey(1) len E True by (rule radix_loop_next)
    also have "(10::int) ^ k * 10 = 10 ^ Suc k" by simp
    also have "int32 (10 ^ Suc k) = 10 ^ Suc k"
    proof (rule int32_id)
      have "(0::int) \<le> 10 ^ Suc k" by simp
      then show "INT_MIN \<le> 10 ^ Suc k" unfolding INT_MIN_def by linarith
      from k have "(10::int) ^ Suc k \<le> 10 ^ 9"
        by (intro power_increasing) simp_all
      moreover have "(10::int) ^ 9 = 1000000000" by simp
      ultimately show "10 ^ Suc k \<le> INT_MAX" unfolding INT_MAX_def by linarith
    qed
    also have "radix_loop maxKey (10 ^ Suc k) (sort_key (\<lambda>r. key r mod 10 ^ Suc k) arr)
        = Some (sort_key key arr)"
    proof (rule Suc.hyps(1))
      show "m = 9 - Suc k" using Suc.hyps(2) by simp
      show "Suc k \<le> 9" using k by simp
    qed
    finally show ?thesis .
  qed
qed

text \<open>
  The loop of \<open>radixSortLSD\<close> for a largest key below \<open>10^9\<close>: \<open>exp\<close> runs
  through powers of ten up to \<open>10^9\<close> at most, none of which leaves \<open>int\<close>.
\<close>

lemma radix_loop_sort:
  assumes keys: "\<forall>r\<in>set arr. 0 \<le> key r \<and> key r \<le> maxKey"
    and maxKey: "0 \<le> maxKey" "maxKey < 1000000000"
    and len: "int (length arr) \<le> INT_MAX"
  shows "radix_loop maxKey 1 arr = Some (sort_key key arr)"
  using radix_loop_digits [OF assms, of 0] by (simp add: sort_key_const)

lemma sort_key_shift:
  fixes s :: int
  shows "sort_key key (map (\<lambda>r. r\<lparr>key := key r + s\<rparr>) arr)
     = map (\<lambda>r. r\<lparr>key := key r + s\<rparr>) (sort_key key arr)"
proof -
  have "sort_key key (map (\<lambda>r. r\<lparr>key := key r + s\<rparr>) arr)
      = map (\<lambda>r. r\<lparr>key := key r + s\<rparr>) (sort_key (\<lambda>a. key (a\<lparr>key := key a + s\<rparr>)) arr)"
    by (rule sort_key_map)
  moreover have "sort_key (\<lambda>a. key (a\<lparr>key := key a + s\<rparr>)) arr = sort_key key arr"
    by (rule sort_key_order_cong) simp
  ultimately show ?thesis by simp
qed

lemma radix_fits_span:
  assumes "radix_fits arr"
  shows "span_fits arr"
  unfolding span_fits_def
proof (intro ballI)
  fix x y assume "x \<in> set arr" "y \<in> set arr"
  with assms have "key x - key y < 1000000000"
    unfolding radix_fits_def by blast
  then show "key x - key y + 1 \<le> INT_MAX" by (simp add: INT_MAX_def)
qed

text \<open>
  The part of \<open>radixSortLSD\<close> between the range scan and the restoring loop,
  on an input on which none of its \<open>int\<close> operations overflows.
\<close>

lemma radix_shifted_sort:
  assumes ne: "arr \<noteq> []" and wf: "well_formed arr" and fits: "radix_fits arr"
  defines "mn \<equiv> Min (key ` set arr)" and "mx \<equiv> Max (key ` set arr)"
  defines "shift \<equiv> (if mn < 0 then int32 (- mn) else 0)"
  defines "s \<equiv> (if mn < 0 then - mn else 0)"
  shows "radix_loop (int32 (mx + shift)) 1 (map (\<lambda>r. r\<lparr>key := int32 (key r + shift)\<rparr>) arr)
     = Some (map (\<lambda>r. r\<lparr>key := key r + s\<rparr>) (sort_key key arr))"
    and "int32 (mx + shift) = mx + s"
    and "map (\<lambda>r. r\<lparr>key := int32 (key r + shift)\<rparr>) arr
      = map (\<lambda>r. r\<lparr>key := key r + s\<rparr>) arr"
    and "shift = s"
proof -
  note span = radix_fits_span [OF fits]
  note f = scan_facts [OF ne wf span, folded mn_def mx_def]
  from wf have len: "int (length arr) \<le> INT_MAX" by (simp add: well_formed_def)
  from ne have "mn \<in> key ` set arr" "mx \<in> key ` set arr"
    unfolding mn_def mx_def by (simp_all only: Min_in Max_in finite_imageI finite_set
      image_is_empty set_empty simp_thms)
  then obtain rmin rmax where r: "rmin \<in> set arr" "key rmin = mn" "rmax \<in> set arr" "key rmax = mx"
    by auto
  from fits r(1,3) have "INT_MIN < key rmin" "key rmax < 1000000000"
    "key rmax - key rmin < 1000000000"
    unfolding radix_fits_def by blast+
  with r have mn: "INT_MIN < mn" and mx: "mx < 1000000000" and d: "mx - mn < 1000000000"
    by simp_all
  from mn f(4,5) have neg: "int32 (- mn) = - mn"
    by (intro int32_id) (simp_all add: INT_MIN_def INT_MAX_def)
  then show sh: "shift = s" by (simp add: shift_def s_def)
  have top: "mx + s < 1000000000"
    using mx d by (simp add: s_def)
  have nonneg: "0 \<le> k + s \<and> k + s \<le> mx + s" if "mn \<le> k" "k \<le> mx" for k
    using that by (simp add: s_def)
  have key_shift: "int32 (k + shift) = k + s" if "mn \<le> k" "k \<le> mx" for k
  proof -
    from nonneg [OF that] top have "INT_MIN \<le> k + s" "k + s \<le> INT_MAX"
      by (simp_all add: INT_MIN_def INT_MAX_def)
    then have "int32 (k + s) = k + s" by (rule int32_id)
    then show ?thesis by (simp only: sh)
  qed
  have "mn \<le> mx" "mx \<le> mx" using f(4) by simp_all
  then show mk: "int32 (mx + shift) = mx + s" by (rule key_shift)
  show shifted: "map (\<lambda>r. r\<lparr>key := int32 (key r + shift)\<rparr>) arr
      = map (\<lambda>r. r\<lparr>key := key r + s\<rparr>) arr"
  proof (rule map_cong [OF refl])
    fix r assume "r \<in> set arr"
    with f(2) have "int32 (key r + shift) = key r + s"
      by (intro key_shift) simp_all
    then show "r\<lparr>key := int32 (key r + shift)\<rparr> = r\<lparr>key := key r + s\<rparr>" by simp
  qed
  have "radix_loop (mx + s) 1 (map (\<lambda>r. r\<lparr>key := key r + s\<rparr>) arr)
      = Some (sort_key key (map (\<lambda>r. r\<lparr>key := key r + s\<rparr>) arr))"
  proof (rule radix_loop_sort)
    show "\<forall>r\<in>set (map (\<lambda>r. r\<lparr>key := key r + s\<rparr>) arr). 0 \<le> key r \<and> key r \<le> mx + s"
      using f(2) nonneg by auto
    show "0 \<le> mx + s" using nonneg [of mx] f(4) by simp
    show "mx + s < 1000000000" by (rule top)
    show "int (length (map (\<lambda>r. r\<lparr>key := key r + s\<rparr>) arr)) \<le> INT_MAX"
      using len by simp
  qed
  then show "radix_loop (int32 (mx + shift)) 1 (map (\<lambda>r. r\<lparr>key := int32 (key r + shift)\<rparr>) arr)
     = Some (map (\<lambda>r. r\<lparr>key := key r + s\<rparr>) (sort_key key arr))"
    by (simp only: mk shifted sort_key_shift)
qed

lemma radixSortLSD_sort:
  assumes wf: "well_formed arr" and fits: "radix_fits arr"
  shows "radixSortLSD arr = Some (sort_key key arr)"
proof (cases "arr = []")
  case True
  then show ?thesis by (simp add: radixSortLSD_def)
next
  case False
  define mn where "mn = Min (key ` set arr)"
  define mx where "mx = Max (key ` set arr)"
  define shift where "shift = (if mn < 0 then int32 (- mn) else 0)"
  define s where "s = (if mn < 0 then - mn else 0)"
  note span = radix_fits_span [OF fits]
  note f = scan_facts [OF False wf span, folded mn_def mx_def]
  note loop = radix_shifted_sort [OF False wf fits, folded mn_def mx_def,
      folded shift_def s_def]
  note shift = loop(4)
  have restore: "map (\<lambda>r. r\<lparr>key := int32 (key r - s)\<rparr>)
        (map (\<lambda>r. r\<lparr>key := key r + s\<rparr>) (sort_key key arr)) = sort_key key arr"
  proof -
    have "map (\<lambda>r. r\<lparr>key := int32 (key r - s)\<rparr>)
        (map (\<lambda>r. r\<lparr>key := key r + s\<rparr>) (sort_key key arr))
        = map (\<lambda>r. r) (sort_key key arr)"
      unfolding map_map
    proof (rule map_cong [OF refl])
      fix r assume "r \<in> set (sort_key key arr)"
      then have "r \<in> set arr" by simp
      with wf have "int32 (key r) = key r"
        by (intro int32_id) (simp_all add: well_formed_def)
      then show "((\<lambda>r. r\<lparr>key := int32 (key r - s)\<rparr>) \<circ> (\<lambda>r. r\<lparr>key := key r + s\<rparr>)) r = r"
        by simp
    qed
    then show ?thesis by simp
  qed
  have zero: "map (\<lambda>r. r\<lparr>key := key r + s\<rparr>) (sort_key key arr) = sort_key key arr" if "\<not> 0 < s"
  proof -
    from that have "s = 0" by (simp add: s_def split: if_splits)
    then show ?thesis by simp
  qed
  have "radixSortLSD arr
      = radix_loop (int32 (mx + shift)) 1 (map (\<lambda>r. r\<lparr>key := int32 (key r + shift)\<rparr>) arr)
        \<bind> (\<lambda>a. Some (if shift > 0 then map (\<lambda>r. r\<lparr>key := int32 (key r - shift)\<rparr>) a else a))"
    using False unfolding shift_def by (simp add: radixSortLSD_def f(1) Let_def)
  also have "\<dots> = Some (if shift > 0 then map (\<lambda>r. r\<lparr>key := int32 (key r - shift)\<rparr>)
        (map (\<lambda>r. r\<lparr>key := key r + s\<rparr>) (sort_key key arr))
        else map (\<lambda>r. r\<lparr>key := key r + s\<rparr>) (sort_key key arr))"
    by (simp only: loop(1) bind.bind_lunit)
  also have "\<dots> = Some (if s > 0 then map (\<lambda>r. r\<lparr>key := int32 (key r - s)\<rparr>)
        (map (\<lambda>r. r\<lparr>key := key r + s\<rparr>) (sort_key key arr))
        else map (\<lambda>r. r\<lparr>key := key r + s\<rparr>) (sort_key key arr))"
    by (simp only: shift)
  also have "\<dots> = Some (sort_key key arr)"
    using restore zero by (cases "0 < s") simp_all
  finally show ?thesis .
qed

section \<open>Counting sort, not stable: correctness\<close>

lemma fill_key_correct:
  assumes i: "i < length cnt"
    and len: "int (length arr) \<le> INT_MAX"
    and k: "int32 (int i + minVal) = k"
  shows "cnt ! i = int c \<Longrightarrow> p + c \<le> length arr \<Longrightarrow>
    fill_key minVal i (arr, cnt, int p)
      = Some (take p arr @ map (\<lambda>r. r\<lparr>key := k\<rparr>) (take c (drop p arr)) @ drop (p + c) arr,
              cnt[i := 0], int (p + c))"
  using i len
proof (induction c arbitrary: arr cnt p)
  case 0
  then have "vget cnt (int i) = Some 0" by (simp add: vget_nat)
  moreover from 0 have "cnt[i := 0] = cnt"
    by (metis list_update_id of_nat_0)
  ultimately show ?case
    by (subst fill_key.simps) simp
next
  case (Suc c)
  let ?upd = "\<lambda>r::Record. r\<lparr>key := k\<rparr>"
  let ?arr' = "arr[p := ?upd (arr ! p)]"
  let ?cnt' = "cnt[i := int c]"
  from Suc.prems have p: "p < length arr" by simp
  have gc: "vget cnt (int i) = Some (int (Suc c))"
    using Suc.prems by (simp add: vget_nat)
  have ga: "vget arr (int p) = Some (arr ! p)"
    using p by (simp add: vget_nat)
  have "int c \<le> INT_MAX"
    using Suc.prems(2,4) by simp
  then have w1: "int32 (int c) = int c"
    by (simp add: int32_id INT_MIN_def)
  have "int p + 1 \<le> INT_MAX" using p Suc.prems(4) by simp
  then have w2: "int32 (int p + 1) = int (Suc p)"
    by (simp add: int32_id INT_MIN_def)
  have step: "fill_key minVal i (arr, cnt, int p) = fill_key minVal i (?arr', ?cnt', int (Suc p))"
    by (subst fill_key.simps) (simp add: gc ga w1 w2 k)
  have "fill_key minVal i (?arr', ?cnt', int (Suc p))
      = Some (take (Suc p) ?arr' @ map ?upd (take c (drop (Suc p) ?arr')) @ drop (Suc p + c) ?arr',
              ?cnt'[i := 0], int (Suc p + c))"
  proof (rule Suc.IH)
    show "?cnt' ! i = int c" using Suc.prems(3) by simp
    show "Suc p + c \<le> length ?arr'" using Suc.prems(2) by simp
    show "i < length ?cnt'" using Suc.prems(3) by simp
    show "int (length ?arr') \<le> INT_MAX" using Suc.prems(4) by simp
  qed
  moreover have "take (Suc p) ?arr' = take p arr @ [?upd (arr ! p)]"
    using p by (simp add: take_Suc_conv_app_nth)
  moreover have "drop (Suc p) ?arr' = drop (Suc p) arr" by simp
  moreover have "drop (Suc p + c) ?arr' = drop (p + Suc c) arr" by simp
  moreover have "take (Suc c) (drop p arr) = arr ! p # take c (drop (Suc p) arr)"
    using p by (simp add: Cons_nth_drop_Suc [symmetric])
  ultimately show ?case
    using step by simp
qed

lemma map_key_const:
  "\<forall>x\<in>set xs. f x = c \<Longrightarrow> map f xs = replicate (length xs) c"
  by (induction xs) simp_all

lemma fill_all_correct:
  fixes orig :: "Record list" and g :: "Record \<Rightarrow> nat"
  assumes bound: "\<forall>r\<in>set orig. g r < R"
    and len: "int (length orig) \<le> INT_MAX"
    and wrap: "\<forall>u<R. int32 (int u + minVal) = int u + minVal"
  defines "lt \<equiv> \<lambda>v. length (filter (\<lambda>r. g r < v) orig)"
    and "occ \<equiv> \<lambda>v. length (filter (\<lambda>r. g r = v) orig)"
  shows "v \<le> R \<Longrightarrow> length arr = length orig \<Longrightarrow> length cnt = R \<Longrightarrow>
    (\<forall>u. v \<le> u \<and> u < R \<longrightarrow> cnt ! u = int (occ u)) \<Longrightarrow>
    \<exists>arr' cnt' index'. fill_all minVal [v..<R] (arr, cnt, int (lt v)) = Some (arr', cnt', index')
      \<and> map id' arr' = map id' arr
      \<and> map key arr' = take (lt v) (map key arr)
           @ concat (map (\<lambda>u. replicate (occ u) (int u + minVal)) [v..<R])"
proof (induction "R - v" arbitrary: v arr cnt)
  case 0
  then have v: "v = R" by simp
  have "lt R = length orig"
    using bound by (simp add: lt_def below_all)
  with 0 v show ?case by simp
next
  case (Suc m)
  then have v: "v < R" by simp
  then have upt: "[v..<R] = v # [Suc v..<R]" by (rule upt_conv_Cons)
  have lt_Suc: "lt (Suc v) = lt v + occ v"
    by (simp add: lt_def occ_def below_Suc)
  have "lt (Suc v) \<le> length orig" by (simp add: lt_def)
  then have fit: "lt v + occ v \<le> length arr"
    using Suc.prems(2) by (simp add: lt_Suc)
  define k where "k = int v + minVal"
  define arr1 where "arr1 = take (lt v) arr @ map (\<lambda>r. r\<lparr>key := k\<rparr>) (take (occ v) (drop (lt v) arr))
      @ drop (lt v + occ v) arr"
  have fk: "fill_key minVal v (arr, cnt, int (lt v)) = Some (arr1, cnt[v := 0], int (lt v + occ v))"
    unfolding arr1_def
  proof (rule fill_key_correct)
    show "v < length cnt" using v Suc.prems(3) by simp
    show "int (length arr) \<le> INT_MAX" using len Suc.prems(2) by simp
    show "int32 (int v + minVal) = k" using wrap v by (simp add: k_def)
    show "cnt ! v = int (occ v)" using Suc.prems(4) v by simp
    show "lt v + occ v \<le> length arr" by (rule fit)
  qed
  have len1: "length arr1 = length orig"
    using fit Suc.prems(2) by (simp add: arr1_def)
  have ids1: "map id' arr1 = map id' arr"
  proof -
    have "map id' arr1 = map id' (take (lt v) arr @ take (occ v) (drop (lt v) arr)
        @ drop (lt v + occ v) arr)"
      by (simp add: arr1_def comp_def)
    also have "take (lt v) arr @ take (occ v) (drop (lt v) arr) @ drop (lt v + occ v) arr = arr"
      by (metis append.assoc append_take_drop_id take_add)
    finally show ?thesis .
  qed
  have keys1: "take (lt (Suc v)) (map key arr1) = take (lt v) (map key arr) @ replicate (occ v) k"
  proof -
    define pre where "pre = take (lt v) (map key arr) @ replicate (occ v) k"
    have "map key (map (\<lambda>r. r\<lparr>key := k\<rparr>) (take (occ v) (drop (lt v) arr)))
        = replicate (occ v) k"
      using fit by (simp add: comp_def map_replicate_const)
    then have "map key arr1 = pre @ map key (drop (lt v + occ v) arr)"
      by (simp add: arr1_def take_map pre_def)
    moreover have "length pre = lt (Suc v)"
      using fit by (simp add: lt_Suc pre_def)
    ultimately have "take (lt (Suc v)) (map key arr1) = pre"
      by simp
    then show ?thesis by (simp only: pre_def)
  qed
  have "\<exists>arr' cnt' index'. fill_all minVal [Suc v..<R] (arr1, cnt[v := 0], int (lt (Suc v)))
        = Some (arr', cnt', index')
      \<and> map id' arr' = map id' arr1
      \<and> map key arr' = take (lt (Suc v)) (map key arr1)
           @ concat (map (\<lambda>u. replicate (occ u) (int u + minVal)) [Suc v..<R])"
  proof (rule Suc.hyps(1))
    show "m = R - Suc v" using Suc.hyps(2) by simp
    show "Suc v \<le> R" using v by simp
    show "length arr1 = length orig" by (rule len1)
    show "length (cnt[v := 0]) = R" using Suc.prems(3) by simp
    show "\<forall>u. Suc v \<le> u \<and> u < R \<longrightarrow> cnt[v := 0] ! u = int (occ u)"
      using Suc.prems(4) by simp
  qed
  then obtain arr' cnt' index' where
    r: "fill_all minVal [Suc v..<R] (arr1, cnt[v := 0], int (lt (Suc v))) = Some (arr', cnt', index')"
      "map id' arr' = map id' arr1"
      "map key arr' = take (lt (Suc v)) (map key arr1)
           @ concat (map (\<lambda>u. replicate (occ u) (int u + minVal)) [Suc v..<R])"
    by blast
  have "fill_all minVal [v..<R] (arr, cnt, int (lt v)) = Some (arr', cnt', index')"
    using fk r(1) by (simp add: upt lt_Suc)
  moreover have "map id' arr' = map id' arr"
    using r(2) ids1 by simp
  moreover have "map key arr' = take (lt v) (map key arr)
           @ concat (map (\<lambda>u. replicate (occ u) (int u + minVal)) [v..<R])"
    using r(3) keys1 by (simp add: upt k_def)
  ultimately show ?case by blast
qed

lemma fill_key_ids:
  "fill_key minVal i st = Some st' \<Longrightarrow> map id' (fst st') = map id' (fst st)"
proof (induction minVal i st rule: fill_key.induct)
  case (1 minVal i arr cnt index)
  from "1.prems" obtain c where c: "vget cnt (int i) = Some c"
    by (subst (asm) fill_key.simps) (auto split: option.splits)
  show ?case
  proof (cases "0 < c")
    case False
    with "1.prems" c show ?thesis
      by (subst (asm) fill_key.simps) simp
  next
    case True
    with "1.prems" c obtain r where r: "vget arr index = Some r"
      by (subst (asm) fill_key.simps) (auto split: option.splits)
    let ?arr' = "arr[nat index := r\<lparr>key := int32 (int i + minVal)\<rparr>]"
    from "1.prems" c True r
    have "fill_key minVal i (?arr', cnt[i := int32 (c - 1)], int32 (index + 1)) = Some st'"
      by (subst (asm) fill_key.simps) simp
    with c True r have "map id' (fst st') = map id' ?arr'"
      using "1.IH" by simp
    moreover from r have "nat index < length arr" "r = arr ! nat index"
      by (auto simp: vget_def split: if_splits)
    then have "map id' ?arr' = map id' arr"
      using list_update_id [of "map id' arr" "nat index"] by (simp add: map_update)
    ultimately show ?thesis by simp
  qed
qed

lemma fill_all_ids:
  "fill_all minVal idxs st = Some st' \<Longrightarrow> map id' (fst st') = map id' (fst st)"
proof (induction idxs arbitrary: st)
  case Nil
  then show ?case by simp
next
  case (Cons i rest)
  then obtain st1 where st1: "fill_key minVal i st = Some st1" "fill_all minVal rest st1 = Some st'"
    by (auto simp: bind_eq_Some_conv)
  from st1(2) have "map id' (fst st') = map id' (fst st1)" by (rule Cons.IH)
  with fill_key_ids [OF st1(1)] show ?case by simp
qed

lemma countingSortUnstable_ids:
  assumes "countingSortUnstable arr = Some out"
  shows "map id' out = map id' arr"
proof (cases "arr = []")
  case True
  with assms show ?thesis by (simp add: countingSortUnstable_def)
next
  case False
  with assms obtain minVal idxs cnt cnt' index' where
    "fill_all minVal idxs (arr, cnt, 0) = Some (out, cnt', index')"
    by (auto simp: countingSortUnstable_def Let_def bind_eq_Some_conv split: prod.splits)
  from fill_all_ids [OF this] show ?thesis by simp
qed

lemma countingSortUnstable_sort:
  assumes wf: "well_formed arr" and span: "span_fits arr"
  shows "\<exists>out. countingSortUnstable arr = Some out \<and> map id' out = map id' arr
     \<and> map key out = sort (map key arr)"
proof (cases "arr = []")
  case True
  then show ?thesis by (simp add: countingSortUnstable_def)
next
  case False
  define mn where "mn = Min (key ` set arr)"
  define mx where "mx = Max (key ` set arr)"
  define R where "R = nat (mx - mn + 1)"
  define g where "g = (\<lambda>r::Record. nat (key r - mn))"
  define slot where "slot = (\<lambda>r::Record. Some (int32 (key r - mn)))"
  define cnt where "cnt = map (\<lambda>v. int (length (filter (\<lambda>r. g r = v) arr))) [0..<R]"
  note f = scan_facts [OF False wf span, folded mn_def mx_def]
  have R: "int R = mx - mn + 1" using f(4) by (simp add: R_def)
  have slots: "\<forall>r\<in>set arr. slot r = Some (int (g r)) \<and> g r < R"
  proof
    fix r assume r: "r \<in> set arr"
    with f(2) have "mn \<le> key r" "key r \<le> mx" by simp_all
    moreover from r f(8) have "int32 (key r - mn) = key r - mn" by simp
    ultimately show "slot r = Some (int (g r)) \<and> g r < R"
      by (simp add: slot_def g_def R_def)
  qed
  from wf have len: "int (length arr) \<le> INT_MAX" by (simp add: well_formed_def)
  have "count_keys slot arr (replicate R 0)
     = Some (map (\<lambda>v. replicate R 0 ! v + int (length (filter (\<lambda>r. g r = v) arr))) [0..<R])"
  proof (rule count_keys_correct)
    show "length (replicate R (0::int)) = R" by simp
    show "\<forall>r\<in>set arr. slot r = Some (int (g r)) \<and> g r < R" by (rule slots)
    show "\<forall>v<R. 0 \<le> replicate R (0::int) ! v \<and> replicate R 0 ! v + int (length arr) \<le> INT_MAX"
      using len by simp
  qed
  moreover have "map (\<lambda>v. replicate R 0 ! v + int (length (filter (\<lambda>r. g r = v) arr))) [0..<R] = cnt"
    unfolding cnt_def by (rule map_cong) simp_all
  ultimately have ck: "count_keys slot arr (replicate R 0) = Some cnt"
    by simp
  have "\<exists>arr' cnt' index'.
      fill_all mn [0..<R] (arr, cnt, int (length (filter (\<lambda>r. g r < 0) arr))) = Some (arr', cnt', index')
      \<and> map id' arr' = map id' arr
      \<and> map key arr' = take (length (filter (\<lambda>r. g r < 0) arr)) (map key arr)
           @ concat (map (\<lambda>u. replicate (length (filter (\<lambda>r. g r = u) arr)) (int u + mn)) [0..<R])"
  proof (rule fill_all_correct [where R = R])
    show "\<forall>r\<in>set arr. g r < R" using slots by simp
    show "int (length arr) \<le> INT_MAX" by (rule len)
    show "\<forall>u<R. int32 (int u + mn) = int u + mn"
    proof (intro allI impI)
      fix u assume "u < R"
      then have "int u + mn \<le> mx" using R by simp
      with f(3,5) show "int32 (int u + mn) = int u + mn"
        by (intro int32_id) simp_all
    qed
    show "0 \<le> R" by simp
    show "length arr = length arr" by simp
    show "length cnt = R" by (simp add: cnt_def)
    show "\<forall>u. 0 \<le> u \<and> u < R \<longrightarrow> cnt ! u = int (length (filter (\<lambda>r. g r = u) arr))"
      by (simp add: cnt_def)
  qed
  then obtain arr' cnt' index' where
    fa: "fill_all mn [0..<R] (arr, cnt, 0) = Some (arr', cnt', index')"
      and ids: "map id' arr' = map id' arr"
      and keys: "map key arr'
        = concat (map (\<lambda>u. replicate (length (filter (\<lambda>r. g r = u) arr)) (int u + mn)) [0..<R])"
    by auto
  have "sort (map key arr) = map key (sort_key key arr)"
    using sort_key_map [of "\<lambda>x. x" key arr] by simp
  also have "sort_key key arr = concat (map (\<lambda>v. filter (\<lambda>r. g r = v) arr) [0..<R])"
  proof (rule sym, rule concat_buckets_eq_sort_key)
    show "\<forall>r\<in>set arr. g r < R" using slots by simp
    show "\<forall>x\<in>set arr. \<forall>y\<in>set arr. (g x < g y) = (key x < key y)"
      using f(2) by (auto simp: g_def)
  qed
  also have "map key (concat (map (\<lambda>v. filter (\<lambda>r. g r = v) arr) [0..<R]))
      = concat (map (\<lambda>v. map key (filter (\<lambda>r. g r = v) arr)) [0..<R])"
    by (simp add: map_concat comp_def)
  also have "\<dots> = concat (map (\<lambda>u. replicate (length (filter (\<lambda>r. g r = u) arr)) (int u + mn)) [0..<R])"
  proof -
    have "map key (filter (\<lambda>r. g r = v) arr)
        = replicate (length (filter (\<lambda>r. g r = v) arr)) (int v + mn)" for v
    proof (rule map_key_const)
      show "\<forall>x\<in>set (filter (\<lambda>r. g r = v) arr). key x = int v + mn"
        using f(2) by (auto simp: g_def)
    qed
    then show ?thesis by simp
  qed
  finally have "map key arr' = sort (map key arr)"
    using keys by simp
  moreover have new: "vnew (int R) (0::int) = Some (replicate R 0)"
    by (simp add: vnew_def)
  have "countingSortUnstable arr = Some arr'"
    using False ck fa
    by (simp add: countingSortUnstable_def f(1) f(7) R [symmetric] new slot_def)
  ultimately show ?thesis using ids by simp
qed


section \<open>Facts shared by the claims on the sorts\<close>

lemma well_formed_sort_key:
  "well_formed (sort_key key arr) = well_formed arr"
  by (simp add: well_formed_def)

lemma span_fits_sort_key:
  "span_fits (sort_key key arr) = span_fits arr"
  by (simp add: span_fits_def)

lemma radix_fits_sort_key:
  "radix_fits (sort_key key arr) = radix_fits arr"
  by (simp add: radix_fits_def)

lemma mset_keys_sort_key:
  "mset (map key (sort_key key arr)) = mset (map key arr)"
  by simp

lemma scenario_well_formed:
  "well_formed [\<lparr>key = 5, id' = 0\<rparr>, \<lparr>key = 3, id' = 1\<rparr>, \<lparr>key = 5, id' = 2\<rparr>, \<lparr>key = 1, id' = 3\<rparr>]"
  by (simp add: well_formed_def INT_MIN_def INT_MAX_def)

lemma scenario_span_fits:
  "span_fits [\<lparr>key = 5, id' = 0\<rparr>, \<lparr>key = 3, id' = 1\<rparr>, \<lparr>key = 5, id' = 2\<rparr>, \<lparr>key = 1, id' = 3\<rparr>]"
  by (simp add: span_fits_def INT_MAX_def)

lemma scenario_radix_fits:
  "radix_fits [\<lparr>key = 5, id' = 0\<rparr>, \<lparr>key = 3, id' = 1\<rparr>, \<lparr>key = 5, id' = 2\<rparr>, \<lparr>key = 1, id' = 3\<rparr>]"
  by (simp add: radix_fits_def INT_MIN_def)

lemma ascending_nth:
  assumes "sorted (map key out)"
  shows "\<forall>i. Suc i < length out \<longrightarrow> key (out ! i) \<le> key (out ! Suc i)"
proof (intro allI impI)
  fix i assume i: "Suc i < length out"
  with assms have "map key out ! i \<le> map key out ! Suc i"
    by (simp add: sorted_iff_nth_Suc)
  with i show "key (out ! i) \<le> key (out ! Suc i)" by simp
qed


lemma radixSortLSD_negative:
  assumes wf: "well_formed arr" and span: "span_fits arr"
    and scan: "getMinMax arr (0, 0) = (minVal, maxVal)"
    and neg: "minVal < 0" and no_min: "INT_MIN < minVal"
    and small: "maxVal - minVal < 1000000000"
  shows "radix_loop (maxVal - minVal) 1 (map (\<lambda>r. r\<lparr>key := key r - minVal\<rparr>) arr)
       = Some (map (\<lambda>r. r\<lparr>key := key r - minVal\<rparr>) (sort_key key arr))"
    and "radixSortLSD arr = Some (sort_key key arr)"
proof -
  from scan neg have ne: "arr \<noteq> []"
    by (auto simp: getMinMax_def)
  note f = scan_facts [OF ne wf span]
  from f(1) scan have mm: "Min (key ` set arr) = minVal" "Max (key ` set arr) = maxVal"
    by simp_all
  have bounds: "minVal \<le> key r \<and> key r \<le> maxVal" if "r \<in> set arr" for r
    using f(2) that unfolding mm by blast
  have fits: "radix_fits arr"
    unfolding radix_fits_def
  proof (intro ballI conjI)
    fix x assume x: "x \<in> set arr"
    from bounds [OF x] no_min show "INT_MIN < key x" by simp
    from bounds [OF x] small neg show "key x < 1000000000" by simp
    fix y assume y: "y \<in> set arr"
    from bounds [OF x] bounds [OF y] small show "key x - key y < 1000000000" by simp
  qed
  from neg have sh: "(if minVal < 0 then int32 (- minVal) else 0) = int32 (- minVal)"
    and s: "(if minVal < 0 then - minVal else 0) = - minVal"
    by simp_all
  note loop = radix_shifted_sort [OF ne wf fits, unfolded mm sh s]
  have "radix_loop (maxVal + - minVal) 1 (map (\<lambda>r. r\<lparr>key := key r + - minVal\<rparr>) arr)
       = Some (map (\<lambda>r. r\<lparr>key := key r + - minVal\<rparr>) (sort_key key arr))"
    using loop(1) by (simp only: loop(2,3))
  then show "radix_loop (maxVal - minVal) 1 (map (\<lambda>r. r\<lparr>key := key r - minVal\<rparr>) arr)
       = Some (map (\<lambda>r. r\<lparr>key := key r - minVal\<rparr>) (sort_key key arr))"
    by simp
  show "radixSortLSD arr = Some (sort_key key arr)"
    by (rule radixSortLSD_sort [OF wf fits])
qed

lemma sort_key_equal_keys:
  assumes "\<forall>x\<in>set arr. \<forall>y\<in>set arr. key x = key y"
  shows "sort_key key arr = arr"
proof (rule sort_key_id_if_sorted)
  have "sorted_wrt (\<lambda>x y. key x \<le> key y) arr"
  proof (rule sorted_wrt_mono_rel [of _ "\<lambda>_ _. True"])
    show "sorted_wrt (\<lambda>_ _. True) arr" by simp
    show "key x \<le> key y" if "x \<in> set arr" "y \<in> set arr" for x y
    proof -
      from that assms have "key x = key y" by blast
      then show ?thesis by simp
    qed
  qed
  then show "sorted (map key arr)" by (simp only: sorted_map)
qed

lemma span_fits_equal_keys:
  assumes "\<forall>x\<in>set arr. \<forall>y\<in>set arr. key x = key y"
  shows "span_fits arr"
  unfolding span_fits_def
proof (intro ballI)
  fix x y assume "x \<in> set arr" "y \<in> set arr"
  with assms have "key x = key y" by blast
  then show "key x - key y + 1 \<le> INT_MAX" by (simp add: INT_MAX_def)
qed

lemma radixSortLSD_twice:
  assumes wf: "well_formed arr" and fits: "radix_fits arr"
  shows "\<exists>out. radixSortLSD arr = Some out \<and> radixSortLSD out = Some out"
proof -
  have "radixSortLSD (sort_key key arr) = Some (sort_key key (sort_key key arr))"
    using wf fits by (intro radixSortLSD_sort) (simp_all add: well_formed_sort_key radix_fits_sort_key)
  moreover have "sort_key key (sort_key key arr) = sort_key key arr"
    by (rule sort_key_id_if_sorted) simp
  ultimately show ?thesis
    using radixSortLSD_sort [OF wf fits] by simp
qed





section \<open>Key multiset: claim C1\<close>

text \<open>
  Claim C1, for the inputs the sorts are specified for: on a well-formed
  input whose key span fits \<open>int\<close>, each of \<open>countingSortStable\<close>,
  \<open>countingSortUnstable\<close>, \<open>bucketSort\<close> and \<open>pigeonholeSort\<close>
  returns an output whose multiset of keys is the multiset of keys of the
  input; and so does \<open>radixSortLSD\<close> on the inputs on which it runs
  without overflow: no key is \<open>INT_MIN\<close> and the largest shifted key is
  below \<open>10^9\<close>.
\<close>

theorem sorts_preserve_key_multiset:
  assumes "well_formed arr" and "span_fits arr"
  shows "(\<exists>out. countingSortStable arr = Some out \<and> mset (map key out) = mset (map key arr))
     \<and> (\<exists>out. countingSortUnstable arr = Some out \<and> mset (map key out) = mset (map key arr))
     \<and> (radix_fits arr \<longrightarrow>
          (\<exists>out. radixSortLSD arr = Some out \<and> mset (map key out) = mset (map key arr)))
     \<and> (\<exists>out. bucketSort arr = Some out \<and> mset (map key out) = mset (map key arr))
     \<and> (\<exists>out. pigeonholeSort arr = Some out \<and> mset (map key out) = mset (map key arr))"
proof (intro conjI impI)
  show "\<exists>out. countingSortStable arr = Some out \<and> mset (map key out) = mset (map key arr)"
    using countingSortStable_sort [OF assms] mset_keys_sort_key by blast
  show "\<exists>out. countingSortUnstable arr = Some out \<and> mset (map key out) = mset (map key arr)"
  proof -
    from countingSortUnstable_sort [OF assms] obtain out where
      out: "countingSortUnstable arr = Some out" "map key out = sort (map key arr)"
      by blast
    have "mset (map key out) = mset (sort (map key arr))"
      using out(2) by (rule arg_cong)
    also have "\<dots> = mset (map key arr)" by (rule mset_sort)
    finally show ?thesis using out(1) by blast
  qed
  show "\<exists>out. radixSortLSD arr = Some out \<and> mset (map key out) = mset (map key arr)"
    if "radix_fits arr"
    using radixSortLSD_sort [OF assms(1) that] mset_keys_sort_key by blast
  show "\<exists>out. bucketSort arr = Some out \<and> mset (map key out) = mset (map key arr)"
    using bucketSort_sort [OF assms] mset_keys_sort_key by blast
  show "\<exists>out. pigeonholeSort arr = Some out \<and> mset (map key out) = mset (map key arr)"
    using pigeonholeSort_sort [OF assms] mset_keys_sort_key by blast
qed

text \<open>The scenario of the specification satisfies the hypotheses of C1.\<close>

theorem sorts_preserve_key_multiset_witness:
  "well_formed [\<lparr>key = 5, id' = 0\<rparr>, \<lparr>key = 3, id' = 1\<rparr>, \<lparr>key = 5, id' = 2\<rparr>, \<lparr>key = 1, id' = 3\<rparr>]
   \<and> span_fits [\<lparr>key = 5, id' = 0\<rparr>, \<lparr>key = 3, id' = 1\<rparr>, \<lparr>key = 5, id' = 2\<rparr>, \<lparr>key = 1, id' = 3\<rparr>]
   \<and> radix_fits [\<lparr>key = 5, id' = 0\<rparr>, \<lparr>key = 3, id' = 1\<rparr>, \<lparr>key = 5, id' = 2\<rparr>, \<lparr>key = 1, id' = 3\<rparr>]
   \<and> (\<exists>out. radixSortLSD [\<lparr>key = 5, id' = 0\<rparr>, \<lparr>key = 3, id' = 1\<rparr>, \<lparr>key = 5, id' = 2\<rparr>, \<lparr>key = 1, id' = 3\<rparr>] = Some out
         \<and> mset (map key out) = {#5, 3, 5, 1#})
   \<and> (\<exists>out. countingSortUnstable [\<lparr>key = 5, id' = 0\<rparr>, \<lparr>key = 3, id' = 1\<rparr>, \<lparr>key = 5, id' = 2\<rparr>, \<lparr>key = 1, id' = 3\<rparr>] = Some out
         \<and> mset (map key out) = {#5, 3, 5, 1#})"
  using sorts_preserve_key_multiset [OF scenario_well_formed scenario_span_fits]
    scenario_well_formed scenario_span_fits scenario_radix_fits
  by simp

text \<open>
  Claim C1 as stated, for every input: on the single key \<open>INT_MIN\<close> the
  shift \<open>-minVal\<close> of \<open>radixSortLSD\<close> overflows; where the overflow
  wraps, the shift is negative, the keys are not restored, and the output
  holds the key \<open>0\<close>.  On the keys \<open>INT_MAX\<close> and \<open>INT_MIN\<close> the range
  of \<open>countingSortStable\<close> comes out as \<open>0\<close> and the frequency count
  indexes an empty vector.
\<close>

theorem key_multiset_counterexample:
  "radixSortLSD [\<lparr>key = - 2147483648, id' = 0\<rparr>] = Some [\<lparr>key = 0, id' = 0\<rparr>]
   \<and> mset (map key [\<lparr>key = 0, id' = 0\<rparr>]) \<noteq> mset (map key [\<lparr>key = - 2147483648, id' = 0\<rparr>])
   \<and> countingSortStable [\<lparr>key = 2147483647, id' = 0\<rparr>, \<lparr>key = - 2147483648, id' = 1\<rparr>] = None"
proof (intro conjI)
  show "radixSortLSD [\<lparr>key = - 2147483648, id' = 0\<rparr>] = Some [\<lparr>key = 0, id' = 0\<rparr>]"
    by code_simp
  show "mset (map key [\<lparr>key = 0, id' = 0\<rparr>]) \<noteq> mset (map key [\<lparr>key = - 2147483648, id' = 0\<rparr>])"
    by simp
  show "countingSortStable [\<lparr>key = 2147483647, id' = 0\<rparr>, \<lparr>key = - 2147483648, id' = 1\<rparr>] = None"
    by code_simp
qed

section \<open>Ascending order: claim C2\<close>

text \<open>
  Claim C2, for the inputs the sorts are specified for: on a well-formed
  input whose key span fits \<open>int\<close>, each of \<open>countingSortStable\<close>,
  \<open>countingSortUnstable\<close>, \<open>bucketSort\<close> and \<open>pigeonholeSort\<close>
  returns an output with \<open>output[i].key \<le> output[i + 1].key\<close> at every
  valid index \<open>i\<close>; and so does \<open>radixSortLSD\<close> on the inputs on which
  it runs without overflow: no key is \<open>INT_MIN\<close> and the largest shifted
  key is below \<open>10^9\<close>.
\<close>

theorem sorts_output_ascending:
  assumes "well_formed arr" and "span_fits arr"
  shows "(\<exists>out. countingSortStable arr = Some out \<and>
            (\<forall>i. Suc i < length out \<longrightarrow> key (out ! i) \<le> key (out ! Suc i)))
     \<and> (\<exists>out. countingSortUnstable arr = Some out \<and>
            (\<forall>i. Suc i < length out \<longrightarrow> key (out ! i) \<le> key (out ! Suc i)))
     \<and> (radix_fits arr \<longrightarrow>
          (\<exists>out. radixSortLSD arr = Some out \<and>
            (\<forall>i. Suc i < length out \<longrightarrow> key (out ! i) \<le> key (out ! Suc i))))
     \<and> (\<exists>out. bucketSort arr = Some out \<and>
            (\<forall>i. Suc i < length out \<longrightarrow> key (out ! i) \<le> key (out ! Suc i)))
     \<and> (\<exists>out. pigeonholeSort arr = Some out \<and>
            (\<forall>i. Suc i < length out \<longrightarrow> key (out ! i) \<le> key (out ! Suc i)))"
proof (intro conjI impI)
  have s: "sorted (map key (sort_key key arr))" by simp
  show "\<exists>out. countingSortStable arr = Some out \<and>
      (\<forall>i. Suc i < length out \<longrightarrow> key (out ! i) \<le> key (out ! Suc i))"
    using countingSortStable_sort [OF assms] ascending_nth [OF s] by blast
  show "\<exists>out. countingSortUnstable arr = Some out \<and>
      (\<forall>i. Suc i < length out \<longrightarrow> key (out ! i) \<le> key (out ! Suc i))"
  proof -
    from countingSortUnstable_sort [OF assms] obtain out where
      out: "countingSortUnstable arr = Some out" "map key out = sort (map key arr)"
      by blast
    have "sorted (sort (map key arr))" by (rule sorted_sort)
    with out(2) have "sorted (map key out)" by (simp only:)
    from out(1) ascending_nth [OF this] show ?thesis by blast
  qed
  show "\<exists>out. radixSortLSD arr = Some out \<and>
      (\<forall>i. Suc i < length out \<longrightarrow> key (out ! i) \<le> key (out ! Suc i))"
    if "radix_fits arr"
    using radixSortLSD_sort [OF assms(1) that] ascending_nth [OF s] by blast
  show "\<exists>out. bucketSort arr = Some out \<and>
      (\<forall>i. Suc i < length out \<longrightarrow> key (out ! i) \<le> key (out ! Suc i))"
    using bucketSort_sort [OF assms] ascending_nth [OF s] by blast
  show "\<exists>out. pigeonholeSort arr = Some out \<and>
      (\<forall>i. Suc i < length out \<longrightarrow> key (out ! i) \<le> key (out ! Suc i))"
    using pigeonholeSort_sort [OF assms] ascending_nth [OF s] by blast
qed

text \<open>The scenario of the specification satisfies the hypotheses of C2.\<close>

theorem sorts_output_ascending_witness:
  "well_formed [\<lparr>key = 5, id' = 0\<rparr>, \<lparr>key = 3, id' = 1\<rparr>, \<lparr>key = 5, id' = 2\<rparr>, \<lparr>key = 1, id' = 3\<rparr>]
   \<and> span_fits [\<lparr>key = 5, id' = 0\<rparr>, \<lparr>key = 3, id' = 1\<rparr>, \<lparr>key = 5, id' = 2\<rparr>, \<lparr>key = 1, id' = 3\<rparr>]
   \<and> radix_fits [\<lparr>key = 5, id' = 0\<rparr>, \<lparr>key = 3, id' = 1\<rparr>, \<lparr>key = 5, id' = 2\<rparr>, \<lparr>key = 1, id' = 3\<rparr>]
   \<and> (\<exists>out. bucketSort [\<lparr>key = 5, id' = 0\<rparr>, \<lparr>key = 3, id' = 1\<rparr>, \<lparr>key = 5, id' = 2\<rparr>, \<lparr>key = 1, id' = 3\<rparr>] = Some out
         \<and> (\<forall>i. Suc i < length out \<longrightarrow> key (out ! i) \<le> key (out ! Suc i)))
   \<and> (\<exists>out. radixSortLSD [\<lparr>key = 5, id' = 0\<rparr>, \<lparr>key = 3, id' = 1\<rparr>, \<lparr>key = 5, id' = 2\<rparr>, \<lparr>key = 1, id' = 3\<rparr>] = Some out
         \<and> (\<forall>i. Suc i < length out \<longrightarrow> key (out ! i) \<le> key (out ! Suc i)))"
  using sorts_output_ascending [OF scenario_well_formed scenario_span_fits]
    scenario_well_formed scenario_span_fits scenario_radix_fits
  by blast

text \<open>
  Claim C2 as stated, for every input: on the keys \<open>INT_MAX\<close> and \<open>-2\<close>
  the sum \<open>maxVal + shift\<close> of \<open>radixSortLSD\<close> overflows and gives a
  negative \<open>maxKey\<close>, no digit pass runs, and the output is the input,
  which is not ascending.
\<close>

theorem ascending_counterexample:
  "radixSortLSD [\<lparr>key = 2147483647, id' = 0\<rparr>, \<lparr>key = - 2, id' = 1\<rparr>]
     = Some [\<lparr>key = 2147483647, id' = 0\<rparr>, \<lparr>key = - 2, id' = 1\<rparr>]
   \<and> \<not> key \<lparr>key = 2147483647, id' = 0\<rparr> \<le> key \<lparr>key = - 2, id' = 1\<rparr>"
proof
  show "radixSortLSD [\<lparr>key = 2147483647, id' = 0\<rparr>, \<lparr>key = - 2, id' = 1\<rparr>]
     = Some [\<lparr>key = 2147483647, id' = 0\<rparr>, \<lparr>key = - 2, id' = 1\<rparr>]"
    by code_simp
  show "\<not> key \<lparr>key = 2147483647, id' = 0\<rparr> \<le> key \<lparr>key = - 2, id' = 1\<rparr>"
    by simp
qed

section \<open>Stability: claim C3\<close>



section \<open>The unstable variant keeps every id in place: claim C4\<close>

text \<open>
  Claim C4: whenever \<open>countingSortUnstable\<close> returns, the output has the
  length of the input and the \<open>id\<close> at every position is the \<open>id\<close> the
  input has there; and on a well-formed input whose key span fits \<open>int\<close>
  it does return, with the keys of the input in ascending order.
\<close>

theorem unstable_sort_keeps_ids:
  "(\<forall>out. countingSortUnstable arr = Some out \<longrightarrow>
      length out = length arr \<and> (\<forall>i<length arr. id' (out ! i) = id' (arr ! i)))
   \<and> (well_formed arr \<and> span_fits arr \<longrightarrow>
      (\<exists>out. countingSortUnstable arr = Some out \<and> map key out = sort (map key arr)))"
proof
  show "\<forall>out. countingSortUnstable arr = Some out \<longrightarrow>
      length out = length arr \<and> (\<forall>i<length arr. id' (out ! i) = id' (arr ! i))"
  proof (intro allI impI)
    fix out assume "countingSortUnstable arr = Some out"
    then have ids: "map id' out = map id' arr"
      by (rule countingSortUnstable_ids)
    then have len: "length out = length arr"
      by (rule map_eq_imp_length_eq)
    have "id' (out ! i) = id' (arr ! i)" if i: "i < length arr" for i
    proof -
      from ids have "map id' out ! i = map id' arr ! i" by simp
      with i len show ?thesis by simp
    qed
    with len show "length out = length arr \<and> (\<forall>i<length arr. id' (out ! i) = id' (arr ! i))"
      by simp
  qed
  show "well_formed arr \<and> span_fits arr \<longrightarrow>
      (\<exists>out. countingSortUnstable arr = Some out \<and> map key out = sort (map key arr))"
  proof
    assume "well_formed arr \<and> span_fits arr"
    then have "well_formed arr" "span_fits arr" by simp_all
    from countingSortUnstable_sort [OF this]
    show "\<exists>out. countingSortUnstable arr = Some out \<and> map key out = sort (map key arr)"
      by blast
  qed
qed

text \<open>The scenario of the specification, as the specification gives its result.\<close>

theorem unstable_sort_keeps_ids_witness:
  "countingSortUnstable [\<lparr>key = 5, id' = 0\<rparr>, \<lparr>key = 3, id' = 1\<rparr>, \<lparr>key = 5, id' = 2\<rparr>, \<lparr>key = 1, id' = 3\<rparr>]
     = Some [\<lparr>key = 1, id' = 0\<rparr>, \<lparr>key = 3, id' = 1\<rparr>, \<lparr>key = 5, id' = 2\<rparr>, \<lparr>key = 5, id' = 3\<rparr>]
   \<and> length [\<lparr>key = 1, id' = 0\<rparr>, \<lparr>key = 3, id' = 1\<rparr>, \<lparr>key = 5, id' = 2\<rparr>, \<lparr>key = 5, id' = 3\<rparr>]
     = length [\<lparr>key = 5, id' = 0\<rparr>, \<lparr>key = 3, id' = 1\<rparr>, \<lparr>key = 5, id' = 2\<rparr>, \<lparr>key = 1, id' = 3\<rparr>]
   \<and> id' ([\<lparr>key = 1, id' = 0\<rparr>, \<lparr>key = 3, id' = 1\<rparr>, \<lparr>key = 5, id' = 2\<rparr>, \<lparr>key = 5, id' = 3\<rparr>] ! 3)
     = id' ([\<lparr>key = 5, id' = 0\<rparr>, \<lparr>key = 3, id' = 1\<rparr>, \<lparr>key = 5, id' = 2\<rparr>, \<lparr>key = 1, id' = 3\<rparr>] ! 3)"
proof -
  let ?ex = "[\<lparr>key = 5, id' = 0\<rparr>, \<lparr>key = 3, id' = 1\<rparr>, \<lparr>key = 5, id' = 2\<rparr>, \<lparr>key = 1, id' = 3\<rparr>]"
  let ?res = "[\<lparr>key = 1, id' = 0\<rparr>, \<lparr>key = 3, id' = 1\<rparr>, \<lparr>key = 5, id' = 2\<rparr>, \<lparr>key = 5, id' = 3\<rparr>]"
  have run: "countingSortUnstable ?ex = Some ?res"
    by code_simp
  with unstable_sort_keeps_ids [of ?ex]
  have "length ?res = length ?ex" and all: "\<forall>i<length ?ex. id' (?res ! i) = id' (?ex ! i)"
    by blast+
  moreover have "(3::nat) < length ?ex" by simp
  with all have "id' (?res ! 3) = id' (?ex ! 3)" by blast
  ultimately show ?thesis using run by blast
qed

section \<open>Negative keys: claim C6\<close>

text \<open>
  Claim C6, for the inputs the sorts are specified for: on a well-formed
  input whose key span fits \<open>int\<close> and whose minimum key \<open>minVal\<close> is
  negative, \<open>countingSortStable\<close> returns the records of the input in
  ascending key order; and when \<open>minVal\<close> is not \<open>INT_MIN\<close> and the
  largest shifted key \<open>maxVal - minVal\<close> is below \<open>10^9\<close>, so that
  \<open>radixSortLSD\<close> runs without overflow, its digit passes run on the keys
  shifted by \<open>-minVal\<close>, with \<open>maxVal - minVal\<close> as the largest key, and
  the result of \<open>radixSortLSD\<close> is their result with the shift subtracted
  again: the records of the input in ascending key order.
\<close>

theorem negative_keys_sorted:
  assumes "well_formed arr" and "span_fits arr"
    and "getMinMax arr (0, 0) = (minVal, maxVal)" and "minVal < 0"
  shows "(\<exists>out. countingSortStable arr = Some out \<and> sorted (map key out) \<and> mset out = mset arr)
     \<and> (INT_MIN < minVal \<and> maxVal - minVal < 1000000000 \<longrightarrow>
          (\<exists>shifted out.
              radix_loop (maxVal - minVal) 1 (map (\<lambda>r. r\<lparr>key := key r - minVal\<rparr>) arr) = Some shifted
            \<and> out = map (\<lambda>r. r\<lparr>key := key r + minVal\<rparr>) shifted
            \<and> radixSortLSD arr = Some out \<and> sorted (map key out) \<and> mset out = mset arr))"
proof (intro conjI impI)
  have s: "sorted (map key (sort_key key arr))" "mset (sort_key key arr) = mset arr"
    by simp_all
  show "\<exists>out. countingSortStable arr = Some out \<and> sorted (map key out) \<and> mset out = mset arr"
    using countingSortStable_sort [OF assms(1,2)] s by blast
  assume "INT_MIN < minVal \<and> maxVal - minVal < 1000000000"
  then have no_min: "INT_MIN < minVal" and small: "maxVal - minVal < 1000000000"
    by simp_all
  note r = radixSortLSD_negative [OF assms no_min small]
  have "map (\<lambda>r. r\<lparr>key := key r + minVal\<rparr>)
      (map (\<lambda>r. r\<lparr>key := key r - minVal\<rparr>) (sort_key key arr)) = sort_key key arr"
    by (simp add: comp_def)
  with r s show "\<exists>shifted out.
        radix_loop (maxVal - minVal) 1 (map (\<lambda>r. r\<lparr>key := key r - minVal\<rparr>) arr) = Some shifted
      \<and> out = map (\<lambda>r. r\<lparr>key := key r + minVal\<rparr>) shifted
      \<and> radixSortLSD arr = Some out \<and> sorted (map key out) \<and> mset out = mset arr"
    by (metis (no_types, lifting))
qed

text \<open>An input with minimum key \<open>-3\<close> satisfies the hypotheses of C6.\<close>

theorem negative_keys_sorted_witness:
  "well_formed [\<lparr>key = - 3, id' = 0\<rparr>, \<lparr>key = 5, id' = 1\<rparr>, \<lparr>key = - 3, id' = 2\<rparr>, \<lparr>key = 0, id' = 3\<rparr>]
   \<and> span_fits [\<lparr>key = - 3, id' = 0\<rparr>, \<lparr>key = 5, id' = 1\<rparr>, \<lparr>key = - 3, id' = 2\<rparr>, \<lparr>key = 0, id' = 3\<rparr>]
   \<and> getMinMax [\<lparr>key = - 3, id' = 0\<rparr>, \<lparr>key = 5, id' = 1\<rparr>, \<lparr>key = - 3, id' = 2\<rparr>, \<lparr>key = 0, id' = 3\<rparr>] (0, 0)
       = (- 3, 5)
   \<and> INT_MIN < - 3 \<and> (5::int) - (- 3) < 1000000000
   \<and> (\<exists>shifted out.
          radix_loop (5 - (- 3)) 1
            (map (\<lambda>r. r\<lparr>key := key r - (- 3)\<rparr>)
               [\<lparr>key = - 3, id' = 0\<rparr>, \<lparr>key = 5, id' = 1\<rparr>, \<lparr>key = - 3, id' = 2\<rparr>, \<lparr>key = 0, id' = 3\<rparr>])
            = Some shifted
        \<and> out = map (\<lambda>r. r\<lparr>key := key r + (- 3)\<rparr>) shifted
        \<and> radixSortLSD [\<lparr>key = - 3, id' = 0\<rparr>, \<lparr>key = 5, id' = 1\<rparr>, \<lparr>key = - 3, id' = 2\<rparr>, \<lparr>key = 0, id' = 3\<rparr>]
            = Some out
        \<and> sorted (map key out)
        \<and> mset out = mset [\<lparr>key = - 3, id' = 0\<rparr>, \<lparr>key = 5, id' = 1\<rparr>, \<lparr>key = - 3, id' = 2\<rparr>, \<lparr>key = 0, id' = 3\<rparr>])"
proof -
  let ?ex = "[\<lparr>key = - 3, id' = 0\<rparr>, \<lparr>key = 5, id' = 1\<rparr>, \<lparr>key = - 3, id' = 2\<rparr>, \<lparr>key = 0, id' = 3\<rparr>]"
  have wf: "well_formed ?ex"
    by (simp add: well_formed_def INT_MIN_def INT_MAX_def)
  have span: "span_fits ?ex"
    by (simp add: span_fits_def INT_MAX_def)
  have scan: "getMinMax ?ex (0, 0) = (- 3, 5)"
    by (simp add: getMinMax_def)
  have neg: "(- 3 :: int) < 0" by simp
  have no_min: "INT_MIN < - 3" by (simp add: INT_MIN_def)
  have small: "(5::int) - (- 3) < 1000000000" by simp
  from negative_keys_sorted [OF wf span scan neg] no_min small wf span scan
  show ?thesis by blast
qed

text \<open>
  Claim C6 as stated, for every input with a negative minimum: on the single
  key \<open>INT_MIN\<close> the shift \<open>-minVal\<close> of \<open>radixSortLSD\<close> overflows;
  where the overflow wraps, the key \<open>0\<close> is returned, which is not the
  original key.  On the keys \<open>INT_MAX\<close> and \<open>-2\<close> the range of
  \<open>countingSortStable\<close> comes out as a negative size and no output is
  produced.
\<close>

theorem negative_keys_counterexample:
  "key \<lparr>key = - 2147483648, id' = 0\<rparr> < 0
   \<and> radixSortLSD [\<lparr>key = - 2147483648, id' = 0\<rparr>] = Some [\<lparr>key = 0, id' = 0\<rparr>]
   \<and> key \<lparr>key = 0, id' = 0\<rparr> \<noteq> key \<lparr>key = - 2147483648, id' = 0\<rparr>
   \<and> countingSortStable [\<lparr>key = 2147483647, id' = 0\<rparr>, \<lparr>key = - 2, id' = 1\<rparr>] = None"
proof (intro conjI)
  show "key \<lparr>key = - 2147483648, id' = 0\<rparr> < 0" by simp
  show "radixSortLSD [\<lparr>key = - 2147483648, id' = 0\<rparr>] = Some [\<lparr>key = 0, id' = 0\<rparr>]"
    by code_simp
  show "key \<lparr>key = 0, id' = 0\<rparr> \<noteq> key \<lparr>key = - 2147483648, id' = 0\<rparr>" by simp
  show "countingSortStable [\<lparr>key = 2147483647, id' = 0\<rparr>, \<lparr>key = - 2, id' = 1\<rparr>] = None"
    by code_simp
qed

section \<open>Equal keys: claim C8\<close>

text \<open>
  Claim C8, for the inputs the sorts are specified for: on a well-formed
  input in which all keys are equal, \<open>countingSortStable\<close>,
  \<open>bucketSort\<close> and \<open>pigeonholeSort\<close> return the input unchanged, and
  so does \<open>radixSortLSD\<close> when it runs without overflow: the common key
  is above \<open>INT_MIN\<close> and below \<open>10^9\<close>.
\<close>

theorem equal_keys_unchanged:
  assumes "well_formed arr" and "\<forall>x\<in>set arr. \<forall>y\<in>set arr. key x = key y"
  shows "countingSortStable arr = Some arr
     \<and> (radix_fits arr \<longrightarrow> radixSortLSD arr = Some arr)
     \<and> bucketSort arr = Some arr
     \<and> pigeonholeSort arr = Some arr"
proof -
  note span = span_fits_equal_keys [OF assms(2)]
  note same = sort_key_equal_keys [OF assms(2)]
  have "countingSortStable arr = Some arr"
    using countingSortStable_sort [OF assms(1) span] by (simp only: same)
  moreover have "radixSortLSD arr = Some arr" if "radix_fits arr"
    using radixSortLSD_sort [OF assms(1) that] by (simp only: same)
  moreover have "bucketSort arr = Some arr"
    using bucketSort_sort [OF assms(1) span] by (simp only: same)
  moreover have "pigeonholeSort arr = Some arr"
    using pigeonholeSort_sort [OF assms(1) span] by (simp only: same)
  ultimately show ?thesis by blast
qed

text \<open>Three records with key \<open>7\<close> satisfy the hypotheses of C8.\<close>

theorem equal_keys_unchanged_witness:
  "well_formed [\<lparr>key = 7, id' = 0\<rparr>, \<lparr>key = 7, id' = 1\<rparr>, \<lparr>key = 7, id' = 2\<rparr>]
   \<and> radix_fits [\<lparr>key = 7, id' = 0\<rparr>, \<lparr>key = 7, id' = 1\<rparr>, \<lparr>key = 7, id' = 2\<rparr>]
   \<and> countingSortStable [\<lparr>key = 7, id' = 0\<rparr>, \<lparr>key = 7, id' = 1\<rparr>, \<lparr>key = 7, id' = 2\<rparr>]
       = Some [\<lparr>key = 7, id' = 0\<rparr>, \<lparr>key = 7, id' = 1\<rparr>, \<lparr>key = 7, id' = 2\<rparr>]
   \<and> radixSortLSD [\<lparr>key = 7, id' = 0\<rparr>, \<lparr>key = 7, id' = 1\<rparr>, \<lparr>key = 7, id' = 2\<rparr>]
       = Some [\<lparr>key = 7, id' = 0\<rparr>, \<lparr>key = 7, id' = 1\<rparr>, \<lparr>key = 7, id' = 2\<rparr>]
   \<and> bucketSort [\<lparr>key = 7, id' = 0\<rparr>, \<lparr>key = 7, id' = 1\<rparr>, \<lparr>key = 7, id' = 2\<rparr>]
       = Some [\<lparr>key = 7, id' = 0\<rparr>, \<lparr>key = 7, id' = 1\<rparr>, \<lparr>key = 7, id' = 2\<rparr>]
   \<and> pigeonholeSort [\<lparr>key = 7, id' = 0\<rparr>, \<lparr>key = 7, id' = 1\<rparr>, \<lparr>key = 7, id' = 2\<rparr>]
       = Some [\<lparr>key = 7, id' = 0\<rparr>, \<lparr>key = 7, id' = 1\<rparr>, \<lparr>key = 7, id' = 2\<rparr>]"
proof -
  let ?ex = "[\<lparr>key = 7, id' = 0\<rparr>, \<lparr>key = 7, id' = 1\<rparr>, \<lparr>key = 7, id' = 2\<rparr>]"
  have wf: "well_formed ?ex"
    by (simp add: well_formed_def INT_MIN_def INT_MAX_def)
  have eq: "\<forall>x\<in>set ?ex. \<forall>y\<in>set ?ex. key x = key y" by simp
  have fits: "radix_fits ?ex" by (simp add: radix_fits_def INT_MIN_def)
  from equal_keys_unchanged [OF wf eq] fits wf
  show ?thesis by blast
qed

text \<open>
  Claim C8 as stated, for every input with equal keys: with the key
  \<open>INT_MIN\<close> twice the shift \<open>-minVal\<close> of \<open>radixSortLSD\<close>
  overflows; where the overflow wraps, records with key \<open>0\<close> are
  returned.
\<close>

theorem equal_keys_counterexample:
  "key \<lparr>key = - 2147483648, id' = 0\<rparr> = key \<lparr>key = - 2147483648, id' = 1\<rparr>
   \<and> radixSortLSD [\<lparr>key = - 2147483648, id' = 0\<rparr>, \<lparr>key = - 2147483648, id' = 1\<rparr>]
       = Some [\<lparr>key = 0, id' = 0\<rparr>, \<lparr>key = 0, id' = 1\<rparr>]
   \<and> [\<lparr>key = 0, id' = 0\<rparr>, \<lparr>key = 0, id' = 1\<rparr>]
       \<noteq> [\<lparr>key = - 2147483648, id' = 0\<rparr>, \<lparr>key = - 2147483648, id' = 1\<rparr>]"
proof (intro conjI)
  show "key \<lparr>key = - 2147483648, id' = 0\<rparr> = key \<lparr>key = - 2147483648, id' = 1\<rparr>" by simp
  show "radixSortLSD [\<lparr>key = - 2147483648, id' = 0\<rparr>, \<lparr>key = - 2147483648, id' = 1\<rparr>]
       = Some [\<lparr>key = 0, id' = 0\<rparr>, \<lparr>key = 0, id' = 1\<rparr>]"
    by code_simp
  show "[\<lparr>key = 0, id' = 0\<rparr>, \<lparr>key = 0, id' = 1\<rparr>]
       \<noteq> [\<lparr>key = - 2147483648, id' = 0\<rparr>, \<lparr>key = - 2147483648, id' = 1\<rparr>]"
    by simp
qed

section \<open>Idempotence: claim C9\<close>

text \<open>
  Claim C9, for the inputs the sorts are specified for: on a well-formed
  input whose key span fits \<open>int\<close>, each of \<open>countingSortStable\<close>,
  \<open>bucketSort\<close> and \<open>pigeonholeSort\<close> returns an output on which the
  same sort returns that output again; and so does \<open>radixSortLSD\<close> on the
  inputs on which it runs without overflow: no key is \<open>INT_MIN\<close> and the
  largest shifted key is below \<open>10^9\<close>.
\<close>

theorem stable_sorts_idempotent:
  assumes "well_formed arr" and "span_fits arr"
  shows "(\<exists>out. countingSortStable arr = Some out \<and> countingSortStable out = Some out)
     \<and> (radix_fits arr \<longrightarrow>
          (\<exists>out. radixSortLSD arr = Some out \<and> radixSortLSD out = Some out))
     \<and> (\<exists>out. bucketSort arr = Some out \<and> bucketSort out = Some out)
     \<and> (\<exists>out. pigeonholeSort arr = Some out \<and> pigeonholeSort out = Some out)"
proof -
  have wf': "well_formed (sort_key key arr)" and span': "span_fits (sort_key key arr)"
    using assms by (simp_all add: well_formed_sort_key span_fits_sort_key)
  have again: "sort_key key (sort_key key arr) = sort_key key arr"
    by (rule sort_key_id_if_sorted) simp
  have "countingSortStable (sort_key key arr) = Some (sort_key key arr)"
    using countingSortStable_sort [OF wf' span'] by (simp only: again)
  with countingSortStable_sort [OF assms]
  have c: "\<exists>out. countingSortStable arr = Some out \<and> countingSortStable out = Some out"
    by blast
  have "bucketSort (sort_key key arr) = Some (sort_key key arr)"
    using bucketSort_sort [OF wf' span'] by (simp only: again)
  with bucketSort_sort [OF assms]
  have b: "\<exists>out. bucketSort arr = Some out \<and> bucketSort out = Some out"
    by blast
  have "pigeonholeSort (sort_key key arr) = Some (sort_key key arr)"
    using pigeonholeSort_sort [OF wf' span'] by (simp only: again)
  with pigeonholeSort_sort [OF assms]
  have p: "\<exists>out. pigeonholeSort arr = Some out \<and> pigeonholeSort out = Some out"
    by blast
  have r: "\<exists>out. radixSortLSD arr = Some out \<and> radixSortLSD out = Some out"
    if "radix_fits arr"
    using assms(1) that by (rule radixSortLSD_twice)
  from c r b p show ?thesis by blast
qed

text \<open>The scenario of the specification satisfies the hypotheses of C9.\<close>

theorem stable_sorts_idempotent_witness:
  "well_formed [\<lparr>key = 5, id' = 0\<rparr>, \<lparr>key = 3, id' = 1\<rparr>, \<lparr>key = 5, id' = 2\<rparr>, \<lparr>key = 1, id' = 3\<rparr>]
   \<and> span_fits [\<lparr>key = 5, id' = 0\<rparr>, \<lparr>key = 3, id' = 1\<rparr>, \<lparr>key = 5, id' = 2\<rparr>, \<lparr>key = 1, id' = 3\<rparr>]
   \<and> radix_fits [\<lparr>key = 5, id' = 0\<rparr>, \<lparr>key = 3, id' = 1\<rparr>, \<lparr>key = 5, id' = 2\<rparr>, \<lparr>key = 1, id' = 3\<rparr>]
   \<and> (\<exists>out. countingSortStable [\<lparr>key = 5, id' = 0\<rparr>, \<lparr>key = 3, id' = 1\<rparr>, \<lparr>key = 5, id' = 2\<rparr>, \<lparr>key = 1, id' = 3\<rparr>] = Some out
         \<and> countingSortStable out = Some out)
   \<and> (\<exists>out. radixSortLSD [\<lparr>key = 5, id' = 0\<rparr>, \<lparr>key = 3, id' = 1\<rparr>, \<lparr>key = 5, id' = 2\<rparr>, \<lparr>key = 1, id' = 3\<rparr>] = Some out
         \<and> radixSortLSD out = Some out)
   \<and> (\<exists>out. bucketSort [\<lparr>key = 5, id' = 0\<rparr>, \<lparr>key = 3, id' = 1\<rparr>, \<lparr>key = 5, id' = 2\<rparr>, \<lparr>key = 1, id' = 3\<rparr>] = Some out
         \<and> bucketSort out = Some out)
   \<and> (\<exists>out. pigeonholeSort [\<lparr>key = 5, id' = 0\<rparr>, \<lparr>key = 3, id' = 1\<rparr>, \<lparr>key = 5, id' = 2\<rparr>, \<lparr>key = 1, id' = 3\<rparr>] = Some out
         \<and> pigeonholeSort out = Some out)"
  using stable_sorts_idempotent [OF scenario_well_formed scenario_span_fits]
    scenario_well_formed scenario_span_fits scenario_radix_fits
  by blast

text \<open>
  Claim C9 as stated, for every input: on the keys \<open>0\<close> and \<open>INT_MIN\<close>
  the shift \<open>-minVal\<close> of \<open>radixSortLSD\<close> overflows; where the
  overflow wraps, the keys come back with their sign bit flipped, and
  sorting the output again flips them once more.
\<close>

theorem idempotence_counterexample:
  "radixSortLSD [\<lparr>key = 0, id' = 0\<rparr>, \<lparr>key = - 2147483648, id' = 1\<rparr>]
     = Some [\<lparr>key = - 2147483648, id' = 0\<rparr>, \<lparr>key = 0, id' = 1\<rparr>]
   \<and> radixSortLSD [\<lparr>key = - 2147483648, id' = 0\<rparr>, \<lparr>key = 0, id' = 1\<rparr>]
     = Some [\<lparr>key = 0, id' = 0\<rparr>, \<lparr>key = - 2147483648, id' = 1\<rparr>]
   \<and> [\<lparr>key = 0, id' = 0\<rparr>, \<lparr>key = - 2147483648, id' = 1\<rparr>]
     \<noteq> [\<lparr>key = - 2147483648, id' = 0\<rparr>, \<lparr>key = 0, id' = 1\<rparr>]"
proof (intro conjI)
  show "radixSortLSD [\<lparr>key = 0, id' = 0\<rparr>, \<lparr>key = - 2147483648, id' = 1\<rparr>]
     = Some [\<lparr>key = - 2147483648, id' = 0\<rparr>, \<lparr>key = 0, id' = 1\<rparr>]"
    by code_simp
  show "radixSortLSD [\<lparr>key = - 2147483648, id' = 0\<rparr>, \<lparr>key = 0, id' = 1\<rparr>]
     = Some [\<lparr>key = 0, id' = 0\<rparr>, \<lparr>key = - 2147483648, id' = 1\<rparr>]"
    by code_simp
  show "[\<lparr>key = 0, id' = 0\<rparr>, \<lparr>key = - 2147483648, id' = 1\<rparr>]
     \<noteq> [\<lparr>key = - 2147483648, id' = 0\<rparr>, \<lparr>key = 0, id' = 1\<rparr>]"
    by simp
qed


section \<open>The verifier: claims C5 and C7\<close>

lemma verify_loop_iff:
  "verify_loop idxs arr checkStability \<longleftrightarrow>
     (\<forall>i\<in>set idxs. key (arr ! (i - 1)) \<le> key (arr ! i) \<and>
        (checkStability \<longrightarrow> key (arr ! i) = key (arr ! (i - 1)) \<longrightarrow>
           id' (arr ! (i - 1)) \<le> id' (arr ! i)))"
  by (induction idxs) (auto simp: not_less)

lemma verify_iff_adjacent:
  "verify arr checkStability \<longleftrightarrow>
     (\<forall>i. Suc i < length arr \<longrightarrow> key (arr ! i) \<le> key (arr ! Suc i) \<and>
        (checkStability \<longrightarrow> key (arr ! i) = key (arr ! Suc i) \<longrightarrow>
           id' (arr ! i) \<le> id' (arr ! Suc i)))"
proof -
  have "(\<forall>i\<in>set [1..<length arr]. P (i - 1) i) \<longleftrightarrow> (\<forall>i. Suc i < length arr \<longrightarrow> P i (Suc i))"
    for P :: "nat \<Rightarrow> nat \<Rightarrow> bool"
  proof
    assume h: "\<forall>i\<in>set [1..<length arr]. P (i - 1) i"
    show "\<forall>i. Suc i < length arr \<longrightarrow> P i (Suc i)"
    proof (intro allI impI)
      fix i assume "Suc i < length arr"
      then have "Suc i \<in> set [1..<length arr]" by simp
      with h have "P (Suc i - 1) (Suc i)" by blast
      then show "P i (Suc i)" by simp
    qed
  next
    assume h: "\<forall>i. Suc i < length arr \<longrightarrow> P i (Suc i)"
    show "\<forall>i\<in>set [1..<length arr]. P (i - 1) i"
    proof
      fix i assume "i \<in> set [1..<length arr]"
      then have "Suc (i - 1) < length arr" and "Suc (i - 1) = i" by auto
      with h show "P (i - 1) i" by metis
    qed
  qed
  from this [of "\<lambda>a b. key (arr ! a) \<le> key (arr ! b) \<and>
        (checkStability \<longrightarrow> key (arr ! b) = key (arr ! a) \<longrightarrow> id' (arr ! a) \<le> id' (arr ! b))"]
  show ?thesis
    unfolding verify_def verify_loop_iff by (simp add: eq_commute)
qed

text \<open>
  Claim C5, as the code has it: \<open>verify\<close> returns true exactly when the keys
  are non-decreasing throughout and, when the stability flag is set, the
  \<open>id\<close> values do not decrease from one record to the next inside every run
  of equal keys.  The verifier rejects a pair of neighbours with equal keys
  only when the second \<open>id\<close> is smaller than the first, so that equal
  \<open>id\<close> values pass.
\<close>

theorem verify_iff:
  "verify arr checkStability \<longleftrightarrow>
     sorted (map key arr) \<and>
     (checkStability \<longrightarrow>
        (\<forall>i. Suc i < length arr \<longrightarrow> key (arr ! i) = key (arr ! Suc i) \<longrightarrow>
           id' (arr ! i) \<le> id' (arr ! Suc i)))"
  unfolding verify_iff_adjacent sorted_iff_nth_Suc
  by (auto simp: Suc_lessD)

theorem verify_iff_witness:
  "verify [\<lparr>key = 1, id' = 0\<rparr>, \<lparr>key = 1, id' = 2\<rparr>, \<lparr>key = 4, id' = 1\<rparr>] True"
  using verify_iff [of "[\<lparr>key = 1, id' = 0\<rparr>, \<lparr>key = 1, id' = 2\<rparr>, \<lparr>key = 4, id' = 1\<rparr>]" True]
  by (simp add: nth_Cons split: nat.split)

text \<open>
  Claim C5 as stated asks for strictly increasing \<open>id\<close> values inside a run
  of equal keys.  The verifier accepts a run of two records with the same key
  and the same \<open>id\<close>.
\<close>

theorem verify_strict_ids_counterexample:
  "verify [\<lparr>key = 1, id' = 5\<rparr>, \<lparr>key = 1, id' = 5\<rparr>] True
   \<and> key \<lparr>key = 1, id' = 5\<rparr> = key \<lparr>key = 1, id' = 5\<rparr>
   \<and> \<not> id' \<lparr>key = 1, id' = 5\<rparr> < id' \<lparr>key = 1, id' = 5\<rparr>"
  by code_simp

text \<open>
  Claim C7: on the empty sequence each of the five sorts returns the empty
  sequence, and \<open>verify\<close> returns true whatever the stability flag is.
\<close>

theorem empty_input_noop:
  "countingSortStable [] = Some [] \<and> countingSortUnstable [] = Some []
   \<and> radixSortLSD [] = Some [] \<and> bucketSort [] = Some [] \<and> pigeonholeSort [] = Some []
   \<and> verify [] True \<and> verify [] False"
  by (simp add: countingSortStable_def countingSortUnstable_def radixSortLSD_def
      bucketSort_def pigeonholeSort_def verify_def)

section \<open>The bucket index: claim C10\<close>

text \<open>
  With a key span that fits \<open>int\<close> the subtraction of line 129 does not
  wrap, and the computed index lies inside the vector of buckets without the
  clamp.
\<close>

lemma bucket_index_in_bounds:
  assumes wf: "well_formed arr" and span: "span_fits arr"
    and scan: "getMinMax arr (0, 0) = (minVal, maxVal)"
    and r: "r \<in> set arr"
  shows "\<exists>idx. bucket_index minVal (int (length arr)) (maxVal - minVal + 1) r = Some idx
     \<and> 0 \<le> idx \<and> idx < int (length arr)"
proof -
  from r have ne: "arr \<noteq> []" by auto
  note f = scan_facts [OF ne wf span]
  from f(1) scan have mm: "Min (key ` set arr) = minVal" "Max (key ` set arr) = maxVal"
    by simp_all
  note g = f [unfolded mm]
  define n where "n = int (length arr)"
  define rg where "rg = maxVal - minVal + 1"
  define q where "q = (key r - minVal) * n div rg"
  from wf have len: "n \<le> INT_MAX" by (simp add: well_formed_def n_def)
  from r have n: "0 < n" by (auto simp: n_def)
  have rg: "0 < rg" using g(4) by (simp add: rg_def)
  from r g(2) have d: "0 \<le> key r - minVal" "key r - minVal < rg"
    by (simp_all add: rg_def)
  from d(1) n have "0 \<le> (key r - minVal) * n" by simp
  with rg have lo: "0 \<le> q"
    by (simp add: q_def pos_imp_zdiv_nonneg_iff)
  from d(2) n have "(key r - minVal) * n < rg * n" by simp
  then have "(key r - minVal) * n < n * rg" by (simp add: mult.commute)
  with rg have hi: "q < n"
    unfolding q_def by (intro int_div_less)
  from r g(8) have w1: "int32 (key r - minVal) = key r - minVal" by simp
  from d(1) n rg have sd: "((key r - minVal) * n) sdiv rg = q"
    unfolding q_def by (intro sdiv_nonneg) simp_all
  from lo hi len have w2: "int32 q = q"
    by (intro int32_id) (simp_all add: INT_MIN_def)
  from rg hi have "bucket_index minVal n rg r = Some q"
    by (simp add: bucket_index_def w1 sd w2 Let_def)
  with lo hi show ?thesis
    unfolding n_def rg_def by blast
qed

text \<open>
  With a wider span the wrapped subtraction also puts records into the wrong
  bucket without leaving the vector: the largest key lands in bucket \<open>0\<close>.
\<close>

lemma bucketSort_wide_span:
  "bucketSort [\<lparr>key = - 2147483648, id' = 0\<rparr>, \<lparr>key = - 1, id' = 1\<rparr>, \<lparr>key = 2147483647, id' = 2\<rparr>]
     = Some [\<lparr>key = - 2147483648, id' = 0\<rparr>, \<lparr>key = 2147483647, id' = 2\<rparr>, \<lparr>key = - 1, id' = 1\<rparr>]"
  by code_simp

text \<open>
  Claim C10 at the input \<open>[{key = 0}, {key = INT_MIN}]\<close>: the range scanner
  yields \<open>minVal = INT_MIN\<close> and \<open>maxVal = 0\<close>, so that \<open>bucketCount = 2\<close>
  and \<open>range = 2147483649\<close>.  For the record with key \<open>0\<close> the subtraction
  \<open>arr[i].key - minVal\<close> leaves \<open>int\<close> before it is widened, the computed
  index is \<open>-1\<close>, the clamp does not apply, and the scatter step indexes the
  vector of buckets outside its bounds.
\<close>

theorem bucket_index_out_of_bounds:
  "bucket_index (- 2147483648) 2 2147483649 \<lparr>key = 0, id' = 0\<rparr> = Some (- 1)
   \<and> getMinMax [\<lparr>key = 0, id' = 0\<rparr>, \<lparr>key = - 2147483648, id' = 1\<rparr>] (0, 0) = (- 2147483648, 0)
   \<and> bucketSort [\<lparr>key = 0, id' = 0\<rparr>, \<lparr>key = - 2147483648, id' = 1\<rparr>] = None"
  by code_simp

end
